theory Spec2Isabelle
  imports Main "HOL-Library.Char_ord" "HOL-Library.List_Lexorder" "HOL-Library.Multiset"
begin

unbundle bit_operations_syntax

section \<open>Bytes, errors and integer conversions\<close>

text \<open>
  A Python \<^verbatim>\<open>bytes\<close> value is a list of \<^typ>\<open>char\<close> (one char per byte, 0..255);
  Python's unbounded integers are \<^typ>\<open>int\<close>. Every \<^verbatim>\<open>raise\<close> of the source is a
  value of \<open>error\<close>, returned as \<open>Inl\<close>.
\<close>

type_synonym bytes = "char list"

datatype error = ValueError | OverflowError | StructError | IOError | KeyError | AttributeError

datatype endian = little | big

abbreviation NUL :: char where
  "NUL \<equiv> CHR 0x00"

text \<open>\<^verbatim>\<open>int.from_bytes(b, 'big')\<close> and \<^verbatim>\<open>int.from_bytes(b, 'little')\<close>.\<close>

definition be_int :: "bytes \<Rightarrow> int" where
  "be_int bs = foldl (\<lambda>acc b. acc * 256 + of_char b) 0 bs"

definition bytes_to_int :: "bytes \<Rightarrow> endian \<Rightarrow> int" where
  "bytes_to_int b e = (case e of big \<Rightarrow> be_int b | little \<Rightarrow> be_int (rev b))"

text \<open>The \<open>len\<close> low-order bytes of \<open>n\<close>, least significant first.\<close>

primrec le_bytes :: "nat \<Rightarrow> int \<Rightarrow> bytes" where
  "le_bytes 0 n = []"
| "le_bytes (Suc len) n = char_of (n mod 256) # le_bytes len (n div 256)"

text \<open>
  \<^verbatim>\<open>int_to_bytes(n, length, endian)\<close>, the Python 3 branch \<^verbatim>\<open>n.to_bytes(length, endian)\<close>:
  OverflowError when \<open>n\<close> is negative or does not fit, ValueError for a negative length.
\<close>

definition int_to_bytes :: "int \<Rightarrow> int \<Rightarrow> endian \<Rightarrow> error + bytes" where
  "int_to_bytes n len e =
     (if len < 0 then Inl ValueError
      else if n < 0 \<or> 256 ^ nat len \<le> n then Inl OverflowError
      else Inr (case e of little \<Rightarrow> le_bytes (nat len) n
                        | big \<Rightarrow> rev (le_bytes (nat len) n)))"

subsection \<open>Hexadecimal strings\<close>

definition hexdigit :: "int \<Rightarrow> char" where
  "hexdigit v = ''0123456789abcdef'' ! nat v"

text \<open>\<^verbatim>\<open>bytes.hex()\<close>: two lowercase digits per byte, as \<^verbatim>\<open>hexdigest()\<close> emits them.\<close>

definition hexlify :: "bytes \<Rightarrow> string" where
  "hexlify bs = concat (map (\<lambda>b. [hexdigit (of_char b div 16), hexdigit (of_char b mod 16)]) bs)"

definition hex_val :: "char \<Rightarrow> int option" where
  "hex_val c =
     (if CHR ''0'' \<le> c \<and> c \<le> CHR ''9'' then Some (of_char c - 48)
      else if CHR ''a'' \<le> c \<and> c \<le> CHR ''f'' then Some (of_char c - 87)
      else if CHR ''A'' \<le> c \<and> c \<le> CHR ''F'' then Some (of_char c - 55)
      else None)"

fun hex_digits :: "string \<Rightarrow> int \<Rightarrow> error + int" where
  "hex_digits [] acc = Inr acc"
| "hex_digits (c # cs) acc =
     (case hex_val c of None \<Rightarrow> Inl ValueError
      | Some v \<Rightarrow> hex_digits cs (16 * acc + v))"

text \<open>
  \<^verbatim>\<open>long(s, 16)\<close> on the strings this program builds: an optional \<^verbatim>\<open>0x\<close> prefix and then
  hexadecimal digits; anything else is a ValueError. (Python also accepts a sign,
  surrounding blanks and single underscores, which no caller produces.)
\<close>

definition long16 :: "string \<Rightarrow> error + int" where
  "long16 s =
     (let t = (if take 2 s = ''0x'' \<or> take 2 s = ''0X'' then drop 2 s else s)
      in if t = [] then Inl ValueError else hex_digits t 0)"

section \<open>SHA-1 (\<^verbatim>\<open>hashlib.sha1\<close>)\<close>

text \<open>
  The library function, after FIPS 180-4, on 32-bit words held as integers with the
  wrap-around written out.
\<close>

definition add32 :: "int \<Rightarrow> int \<Rightarrow> int" where
  "add32 x y = (x + y) mod 4294967296"

definition rotl32 :: "nat \<Rightarrow> int \<Rightarrow> int" where
  "rotl32 n x = (x * 2 ^ n) mod 4294967296 + x div 2 ^ (32 - n)"

definition not32 :: "int \<Rightarrow> int" where
  "not32 x = 4294967295 - x"

fun sha1_words :: "bytes \<Rightarrow> int list" where
  "sha1_words (a # b # c # d # bs) = be_int [a, b, c, d] # sha1_words bs"
| "sha1_words bs = []"

definition sha1_f :: "nat \<Rightarrow> int \<Rightarrow> int \<Rightarrow> int \<Rightarrow> int" where
  "sha1_f t b c d =
     (if t < 20 then (b AND c) OR (not32 b AND d)
      else if t < 40 then b XOR c XOR d
      else if t < 60 then (b AND c) OR (b AND d) OR (c AND d)
      else b XOR c XOR d)"

definition sha1_k :: "nat \<Rightarrow> int" where
  "sha1_k t =
     (if t < 20 then 0x5A827999 else if t < 40 then 0x6ED9EBA1
      else if t < 60 then 0x8F1BBCDC else 0xCA62C1D6)"

fun sha1_round :: "nat \<Rightarrow> int \<Rightarrow> int list \<Rightarrow> int list" where
  "sha1_round t w [a, b, c, d, e] =
     [add32 (add32 (add32 (add32 (rotl32 5 a) (sha1_f t b c d)) e) (sha1_k t)) w,
      a, rotl32 30 b, c, d]"
| "sha1_round t w st = st"

fun sha1_rounds :: "nat \<Rightarrow> int list \<Rightarrow> int list \<Rightarrow> int list" where
  "sha1_rounds t [] st = st"
| "sha1_rounds t (w # ws) st = sha1_rounds (t + 1) ws (sha1_round t w st)"

text \<open>The message schedule is kept newest word first while it is extended.\<close>

fun sha1_next_w :: "int list \<Rightarrow> int" where
  "sha1_next_w (w1 # w2 # w3 # w4 # w5 # w6 # w7 # w8 # w9 # w10 # w11 # w12 # w13 # w14
                 # w15 # w16 # ws) = rotl32 1 (w3 XOR w8 XOR w14 XOR w16)"
| "sha1_next_w ws = 0"

primrec sha1_extend :: "nat \<Rightarrow> int list \<Rightarrow> int list" where
  "sha1_extend 0 ws = ws"
| "sha1_extend (Suc k) ws = sha1_extend k (sha1_next_w ws # ws)"

definition sha1_schedule :: "bytes \<Rightarrow> int list" where
  "sha1_schedule blk = rev (sha1_extend 64 (rev (sha1_words blk)))"

definition sha1_block :: "int list \<Rightarrow> bytes \<Rightarrow> int list" where
  "sha1_block h blk = map2 add32 h (sha1_rounds 0 (sha1_schedule blk) h)"

function sha1_blocks :: "int list \<Rightarrow> bytes \<Rightarrow> int list" where
  "sha1_blocks h bs =
     (if bs = [] then h else sha1_blocks (sha1_block h (take 64 bs)) (drop 64 bs))"
  by pat_completeness auto
termination
  by (relation "measure (\<lambda>(h, bs). length bs)") auto

declare sha1_blocks.simps [simp del]

definition sha1_pad :: "bytes \<Rightarrow> bytes" where
  "sha1_pad m =
     m @ CHR 0x80 # replicate ((119 - length m mod 64) mod 64) NUL
       @ rev (le_bytes 8 (8 * int (length m)))"

definition sha1 :: "bytes \<Rightarrow> bytes" where
  "sha1 m =
     concat (map (\<lambda>w. rev (le_bytes 4 w))
       (sha1_blocks [0x67452301, 0xEFCDAB89, 0x98BADCFE, 0x10325476, 0xC3D2E1F0]
          (sha1_pad m)))"

text \<open>
  A hash object is the byte string fed to it so far: \<^verbatim>\<open>hashlib.sha1()\<close> is the empty
  string, \<^verbatim>\<open>update\<close> appends, \<^verbatim>\<open>digest\<close> and \<^verbatim>\<open>hexdigest\<close> hash what was fed.
\<close>

type_synonym sha1_obj = bytes

definition sha1_new :: sha1_obj where
  "sha1_new = []"

definition update :: "sha1_obj \<Rightarrow> bytes \<Rightarrow> sha1_obj" where
  "update h d = h @ d"

definition digest :: "sha1_obj \<Rightarrow> bytes" where
  "digest h = sha1 h"

definition hexdigest :: "sha1_obj \<Rightarrow> string" where
  "hexdigest h = hexlify (sha1 h)"

section \<open>EMSA-PKCS1-v1_5 padding\<close>

text \<open>
  \<^verbatim>\<open>padding(hash_value, tlen)\<close>. A negative repeat count gives the empty string, as
  Python's \<^verbatim>\<open>'ff' * n\<close> does; the source has no check on \<open>tlen\<close>.
\<close>

definition padding :: "string \<Rightarrow> int \<Rightarrow> error + int" where
  "padding hash_value tlen =
     long16 (''0x0001''
             @ concat (replicate (nat (tlen - int (length hash_value) div 2 - 3 - 15)) ''ff'')
             @ ''00'' @ ''3021300906052b0e03021a05000414'' @ hash_value)"

text \<open>The 15 bytes of the SHA-1 DigestInfo prefix, as bytes.\<close>

definition digest_info :: bytes where
  "digest_info = [CHR 0x30, CHR 0x21, CHR 0x30, CHR 0x09, CHR 0x06, CHR 0x05, CHR 0x2b,
                  CHR 0x0e, CHR 0x03, CHR 0x02, CHR 0x1a, CHR 0x05, CHR 0x00, CHR 0x04,
                  CHR 0x14]"


text \<open>
  The encoded message the padding is meant to denote, byte by byte: \<open>00 01\<close>, the
  \<open>FF\<close> run, \<open>00\<close>, the DigestInfo prefix and the digest \<open>h\<close>.
\<close>

definition emsa_encoding :: "bytes \<Rightarrow> int \<Rightarrow> bytes" where
  "emsa_encoding h k =
     [CHR 0x00, CHR 0x01] @ replicate (nat (k - int (length h) - 18)) (CHR 0xFF) @ [CHR 0x00]
       @ digest_info @ h"

section \<open>File objects\<close>

text \<open>
  A binary file object opened for reading: its bytes, its position, and the modification
  time of the file it names. A function that reads returns the file object it leaves behind.

  Results of the operations below have type \<open>(error + 'a) option\<close>: \<open>None\<close> is a call that
  never returns, \<open>Some (Inl e)\<close> a raised exception, \<open>Some (Inr v)\<close> a returned value.
\<close>

record pyfile =
  content :: bytes
  fpos :: nat
  mtime :: int

definition CHUNK_SIZE :: int where
  "CHUNK_SIZE = 4096"

text \<open>\<^verbatim>\<open>file.read(n)\<close>: up to \<open>n\<close> bytes from the position, all the rest for \<open>n < 0\<close>.\<close>

definition fread :: "pyfile \<Rightarrow> int \<Rightarrow> bytes \<times> pyfile" where
  "fread file n =
     (let rest = drop (fpos file) (content file);
          data = (if n < 0 then rest else take (nat n) rest)
      in (data, file\<lparr>fpos := fpos file + length data\<rparr>))"

definition ftell :: "pyfile \<Rightarrow> int" where
  "ftell file = int (fpos file)"

text \<open>\<^verbatim>\<open>file.seek(offset, whence)\<close> for whence 0 and 2; a negative target is an OSError.\<close>

definition fseek :: "pyfile \<Rightarrow> int \<Rightarrow> nat \<Rightarrow> error + pyfile" where
  "fseek file offset whence =
     (let target = (if whence = 0 then offset
                    else if whence = 1 then int (fpos file) + offset
                    else int (length (content file)) + offset)
      in if 2 < whence \<or> target < 0 then Inl IOError
         else Inr (file\<lparr>fpos := nat target\<rparr>))"

definition ebind :: "(error + 'a) option \<Rightarrow> ('a \<Rightarrow> (error + 'b) option) \<Rightarrow> (error + 'b) option" where
  "ebind m f = Option.bind m (\<lambda>r. case r of Inl e \<Rightarrow> Some (Inl e) | Inr v \<Rightarrow> f v)"

subsection \<open>\<^verbatim>\<open>unpack_asciiz\<close>\<close>

text \<open>
  The loop \<^verbatim>\<open>while byte != b'\0': string += byte; byte = file.read(1)\<close>. At the end of
  the file \<^verbatim>\<open>read(1)\<close> returns the empty string, which is not \<^verbatim>\<open>b'\0'\<close> either.
\<close>

partial_function (option) unpack_asciiz_while :: "bytes \<Rightarrow> bytes \<Rightarrow> pyfile \<Rightarrow> (bytes \<times> pyfile) option" where
  "unpack_asciiz_while string byte file =
     (if byte \<noteq> [NUL]
      then (case fread file 1 of (byte', file') \<Rightarrow> unpack_asciiz_while (string @ byte) byte' file')
      else Some (string, file))"

declare unpack_asciiz_while.simps [code]

definition unpack_asciiz :: "pyfile \<Rightarrow> (bytes \<times> pyfile) option" where
  "unpack_asciiz file = (case fread file 1 of (byte, file') \<Rightarrow> unpack_asciiz_while [] byte file')"

subsection \<open>\<^verbatim>\<open>struct\<close> formats\<close>

text \<open>\<^verbatim>\<open>struct.pack('<I', v)\<close>: a struct.error unless \<open>0 \<le> v < 2\<^sup>3\<^sup>2\<close>.\<close>

definition pack_I :: "int \<Rightarrow> error + bytes" where
  "pack_I v = (if 0 \<le> v \<and> v < 4294967296 then Inr (le_bytes 4 v) else Inl StructError)"

fun pack_Is :: "int list \<Rightarrow> error + bytes" where
  "pack_Is [] = Inr []"
| "pack_Is (v # vs) =
     (case pack_I v of Inl e \<Rightarrow> Inl e
      | Inr b \<Rightarrow> (case pack_Is vs of Inl e \<Rightarrow> Inl e | Inr bs \<Rightarrow> Inr (b @ bs)))"

text \<open>\<^verbatim>\<open>struct.unpack('<IIIII', b)\<close>: a struct.error unless \<open>b\<close> has 20 bytes.\<close>

definition unpack_IIIII :: "bytes \<Rightarrow> error + int \<times> int \<times> int \<times> int \<times> int" where
  "unpack_IIIII b =
     (if length b \<noteq> 20 then Inl StructError
      else Inr (bytes_to_int (take 4 b) little,
                bytes_to_int (take 4 (drop 4 b)) little,
                bytes_to_int (take 4 (drop 8 b)) little,
                bytes_to_int (take 4 (drop 12 b)) little,
                bytes_to_int (take 4 (drop 16 b)) little))"

text \<open>The format \<^verbatim>\<open>'s'\<close>: one byte, the first of the argument, or NUL when it is empty.\<close>

definition pack_s :: "bytes \<Rightarrow> bytes" where
  "pack_s b = (case b of [] \<Rightarrow> [NUL] | c # cs \<Rightarrow> [c])"

section \<open>The PBO container\<close>

subsection \<open>\<^verbatim>\<open>PboInfo\<close>\<close>

record PboInfo =
  filename :: bytes
  packing_method :: int
  original_size :: int
  reserved :: int
  timestamp :: int
  data_size :: int
  fp :: "pyfile option"
  data_offset :: int

text \<open>The constructor's defaults: \<^verbatim>\<open>data_size=-1, fp=None\<close> and \<^verbatim>\<open>data_offset = -1\<close>.\<close>

definition new_PboInfo :: "bytes \<Rightarrow> int \<Rightarrow> int \<Rightarrow> int \<Rightarrow> int \<Rightarrow> int \<Rightarrow> pyfile option \<Rightarrow> PboInfo" where
  "new_PboInfo fname pm osz res ts dsz f =
     \<lparr>filename = fname, packing_method = pm, original_size = osz, reserved = res,
      timestamp = ts, data_size = dsz, fp = f, data_offset = - 1\<rparr>"

text \<open>\<^verbatim>\<open>os.fstat(self.fp.fileno()).st_size\<close> is the length of the external file.\<close>

definition get_data_size :: "PboInfo \<Rightarrow> int" where
  "get_data_size self = (case fp self of None \<Rightarrow> data_size self | Some f \<Rightarrow> int (length (content f)))"

definition get_timestamp :: "PboInfo \<Rightarrow> int" where
  "get_timestamp self = (case fp self of None \<Rightarrow> timestamp self | Some f \<Rightarrow> mtime f)"

text \<open>\<^verbatim>\<open>bytes.lower()\<close>: the ASCII letters \<open>A\<close> to \<open>Z\<close> only.\<close>

definition lower_byte :: "char \<Rightarrow> char" where
  "lower_byte c = (if CHR ''A'' \<le> c \<and> c \<le> CHR ''Z'' then char_of (of_char c + (32::nat)) else c)"

definition lower :: "bytes \<Rightarrow> bytes" where
  "lower b = map lower_byte b"

definition endswith :: "bytes \<Rightarrow> bytes list \<Rightarrow> bool" where
  "endswith b suffixes =
     list_ex (\<lambda>s. length s \<le> length b \<and> drop (length b - length s) b = s) suffixes"

definition check_name_hash :: "PboInfo \<Rightarrow> bool" where
  "check_name_hash self = (get_data_size self > 0)"

definition v2_suffixes :: "bytes list" where
  "v2_suffixes = [''.paa'', ''.jpg'', ''.p3d'', ''.tga'', ''.rvmat'', ''.lip'', ''.ogg'',
                  ''.wss'', ''.png'', ''.rtm'', ''.pac'', ''.fxy'', ''.wrp'']"

definition v3_suffixes :: "bytes list" where
  "v3_suffixes = [''.sqf'', ''.inc'', ''.bikb'', ''.ext'', ''.fsm'', ''.sqm'', ''.hpp'',
                  ''.cfg'', ''.sqs'', ''.h'']"

definition check_file_hash :: "PboInfo \<Rightarrow> int \<Rightarrow> error + bool" where
  "check_file_hash self version =
     (if version = 2
      then Inr (get_data_size self > 0 \<and> \<not> endswith (lower (filename self)) v2_suffixes)
      else if version = 3
      then Inr (get_data_size self > 0 \<and> endswith (lower (filename self)) v3_suffixes)
      else Inl ValueError)"

subsection \<open>\<^verbatim>\<open>PboExtFile\<close>: a member seen through the backing file\<close>

record PboExtFile =
  ext_fp :: "pyfile option"
  info :: PboInfo
  pos :: int

definition new_PboExtFile :: "pyfile option \<Rightarrow> PboInfo \<Rightarrow> PboExtFile" where
  "new_PboExtFile fileobj pboinfo = \<lparr>ext_fp = fileobj, info = pboinfo, pos = data_offset pboinfo\<rparr>"

text \<open>
  \<^verbatim>\<open>read(n)\<close> seeks the backing file to \<^verbatim>\<open>self.pos\<close>, reads at most up to the end of the
  member's slice and records the position reached.
\<close>

definition PboExtFile_read :: "PboExtFile \<Rightarrow> int \<Rightarrow> error + bytes \<times> PboExtFile" where
  "PboExtFile_read self n =
     (case ext_fp self of None \<Rightarrow> Inl AttributeError
      | Some f \<Rightarrow>
         (case fseek f (pos self) 0 of Inl e \<Rightarrow> Inl e
          | Inr f1 \<Rightarrow>
             (let read_size = data_offset (info self) + data_size (info self) - pos self;
                  read_size = (if n > - 1 then min n read_size else read_size);
                  (data, f2) = (if read_size > 0 then fread f1 read_size else ([], f1))
              in Inr (data, self\<lparr>ext_fp := Some f2, pos := ftell f2\<rparr>))))"

definition PboExtFile_tell :: "PboExtFile \<Rightarrow> int" where
  "PboExtFile_tell self = pos self - data_offset (info self)"

text \<open>What \<^verbatim>\<open>PboFile.open\<close> returns: a view of the archive or the member's own file.\<close>

datatype member_file = Archived PboExtFile | External pyfile

definition member_read :: "member_file \<Rightarrow> int \<Rightarrow> error + bytes \<times> member_file" where
  "member_read file n =
     (case file of
        Archived x \<Rightarrow> (case PboExtFile_read x n of Inl e \<Rightarrow> Inl e
                        | Inr (data, x') \<Rightarrow> Inr (data, Archived x'))
      | External f \<Rightarrow> (case fread f n of (data, f') \<Rightarrow> Inr (data, External f')))"

definition member_tell :: "member_file \<Rightarrow> int" where
  "member_tell file = (case file of Archived x \<Rightarrow> PboExtFile_tell x | External f \<Rightarrow> ftell f)"

subsection \<open>\<^verbatim>\<open>PboFile\<close>\<close>

text \<open>
  The two \<^verbatim>\<open>OrderedDict\<close>s are association lists in insertion order; assigning to a key
  that is present replaces its value in place, a new key goes to the end.
\<close>

fun odict_set :: "('k \<times> 'v) list \<Rightarrow> 'k \<Rightarrow> 'v \<Rightarrow> ('k \<times> 'v) list" where
  "odict_set [] k v = [(k, v)]"
| "odict_set ((k', v') # d) k v = (if k' = k then (k, v) # d else (k', v') # odict_set d k v)"

record PboFile =
  header :: "bytes \<times> int \<times> int \<times> int \<times> int \<times> int"
  header_extension :: "(bytes \<times> bytes) list"
  filedict :: "(bytes \<times> PboInfo) list"
  pbo_fp :: "pyfile option"

definition infolist :: "PboFile \<Rightarrow> PboInfo list" where
  "infolist self = map snd (filedict self)"

definition pbo_open :: "PboFile \<Rightarrow> PboInfo \<Rightarrow> member_file" where
  "pbo_open self pboinfo =
     (case fp pboinfo of None \<Rightarrow> Archived (new_PboExtFile (pbo_fp self) pboinfo)
      | Some f \<Rightarrow> External f)"

subsection \<open>\<^verbatim>\<open>PboFile.from_file\<close>\<close>

text \<open>The header-extension loop: \<^verbatim>\<open>while len(s) != 0\<close>, a value and the next key.\<close>

partial_function (option) from_file_header_extension ::
    "bytes \<Rightarrow> (bytes \<times> bytes) list \<Rightarrow> pyfile \<Rightarrow> ((bytes \<times> bytes) list \<times> pyfile) option" where
  "from_file_header_extension s hext file =
     (if length s \<noteq> 0
      then Option.bind (unpack_asciiz file) (\<lambda>(v, file1).
           Option.bind (unpack_asciiz file1) (\<lambda>(s', file2).
             from_file_header_extension s' (odict_set hext s v) file2))
      else Some (hext, file))"

declare from_file_header_extension.simps [code]

text \<open>The index loop: \<^verbatim>\<open>while len(s) != 0\<close>, five \<^verbatim>\<open>u32\<close> fields and the next name.\<close>

partial_function (option) from_file_filedict ::
    "bytes \<Rightarrow> (bytes \<times> PboInfo) list \<Rightarrow> pyfile \<Rightarrow> (error + (bytes \<times> PboInfo) list \<times> pyfile) option" where
  "from_file_filedict s fdict file =
     (if length s \<noteq> 0
      then (case fread file 20 of (b, file1) \<Rightarrow>
             (case unpack_IIIII b of Inl e \<Rightarrow> Some (Inl e)
              | Inr (pm, osz, res, ts, dsz) \<Rightarrow>
                  Option.bind (unpack_asciiz file1) (\<lambda>(s', file2).
                    from_file_filedict s' (odict_set fdict s (new_PboInfo s pm osz res ts dsz None)) file2)))
      else Some (Inr (fdict, file)))"

declare from_file_filedict.simps [code]

text \<open>The running sum that gives every entry its \<^verbatim>\<open>data_offset\<close>.\<close>

fun assign_offsets :: "int \<Rightarrow> (bytes \<times> PboInfo) list \<Rightarrow> (bytes \<times> PboInfo) list" where
  "assign_offsets off [] = []"
| "assign_offsets off ((k, i) # d) =
     (k, i\<lparr>data_offset := off\<rparr>) # assign_offsets (off + data_size i) d"

definition from_file :: "pyfile \<Rightarrow> (error + PboFile) option" where
  "from_file file =
     Option.bind (unpack_asciiz file) (\<lambda>(h0, file1).
       case fread file1 20 of (b, file2) \<Rightarrow>
       (case unpack_IIIII b of Inl e \<Rightarrow> Some (Inl e)
        | Inr (h1, h2, h3, h4, h5) \<Rightarrow>
           Option.bind (unpack_asciiz file2) (\<lambda>(s, file3).
           Option.bind (from_file_header_extension s [] file3) (\<lambda>(hext, file4).
           Option.bind (unpack_asciiz file4) (\<lambda>(s', file5).
           ebind (from_file_filedict s' [] file5) (\<lambda>(fdict, file6).
             case fread file6 20 of (empty20, file7) \<Rightarrow>
               Some (Inr \<lparr>header = (h0, h1, h2, h3, h4, h5),
                          header_extension = hext,
                          filedict = assign_offsets (ftell file7) fdict,
                          pbo_fp = Some file7\<rparr>)))))))"

subsection \<open>\<^verbatim>\<open>PboFile._export\<close>\<close>

text \<open>
  The function returns what it writes to the output file. A view of a member works on the
  backing file as the \<^verbatim>\<open>PboFile\<close> holds it: \<^verbatim>\<open>PboExtFile.read\<close> seeks to its own position
  before it reads, so the position an earlier view left behind has no influence.
\<close>

fun export_header_extension :: "(bytes \<times> bytes) list \<Rightarrow> bytes" where
  "export_header_extension [] = []"
| "export_header_extension ((k, v) # d) = k @ [NUL] @ v @ [NUL] @ export_header_extension d"

fun export_index :: "(bytes \<times> PboInfo) list \<Rightarrow> error + bytes" where
  "export_index [] = Inr []"
| "export_index ((k, v) # d) =
     (case pack_Is [packing_method v, original_size v, reserved v, get_timestamp v,
                    get_data_size v] of
        Inl e \<Rightarrow> Inl e
      | Inr b \<Rightarrow> (case export_index d of Inl e \<Rightarrow> Inl e
                  | Inr bs \<Rightarrow> Inr (filename v @ [NUL] @ b @ bs)))"

text \<open>\<^verbatim>\<open>while len(data) > 0: hash1.update(data); file.write(data); data = f.read(CHUNK_SIZE)\<close>\<close>

partial_function (option) export_while ::
    "bytes \<Rightarrow> member_file \<Rightarrow> sha1_obj \<Rightarrow> bytes \<Rightarrow> (error + sha1_obj \<times> bytes) option" where
  "export_while data f hash1 out =
     (if length data > 0
      then (case member_read f CHUNK_SIZE of Inl e \<Rightarrow> Some (Inl e)
            | Inr (data', f') \<Rightarrow> export_while data' f' (update hash1 data) (out @ data))
      else Some (Inr (hash1, out)))"

declare export_while.simps [code]

fun export_members ::
    "PboFile \<Rightarrow> (bytes \<times> PboInfo) list \<Rightarrow> sha1_obj \<Rightarrow> bytes \<Rightarrow> (error + sha1_obj \<times> bytes) option" where
  "export_members self [] hash1 out = Some (Inr (hash1, out))"
| "export_members self ((k, v) # d) hash1 out =
     (case member_read (pbo_open self v) CHUNK_SIZE of Inl e \<Rightarrow> Some (Inl e)
      | Inr (data, f) \<Rightarrow>
          ebind (export_while data f hash1 out) (\<lambda>(hash1', out').
            export_members self d hash1' out'))"

definition export :: "PboFile \<Rightarrow> (error + bytes) option" where
  "export self =
     (case header self of (h0, h1, h2, h3, h4, h5) \<Rightarrow>
      (case pack_Is [h1, h2, h3, h4, h5] of Inl e \<Rightarrow> Some (Inl e)
       | Inr hb \<Rightarrow>
         (case export_index (sort_key fst (filedict self)) of Inl e \<Rightarrow> Some (Inl e)
          | Inr ib \<Rightarrow>
             (let hdr = pack_s h0 @ hb @ export_header_extension (header_extension self)
                          @ pack_s [NUL] @ ib @ replicate 21 NUL
              in ebind (export_members self (sort_key fst (filedict self))
                          (update sha1_new hdr) hdr) (\<lambda>(hash1, out).
                   case long16 (hexdigest hash1) of Inl e \<Rightarrow> Some (Inl e)
                   | Inr n \<Rightarrow> (case int_to_bytes n 20 big of Inl e \<Rightarrow> Some (Inl e)
                               | Inr d \<Rightarrow> Some (Inr (out @ pack_s [NUL] @ d))))))))"

section \<open>The signature hashes\<close>

subsection \<open>\<^verbatim>\<open>PboFile._namehash\<close> and \<^verbatim>\<open>PboFile._filehash\<close>\<close>

definition namehash :: "PboFile \<Rightarrow> sha1_obj" where
  "namehash self =
     foldl (\<lambda>h i. if check_name_hash i then update h (lower (filename i)) else h)
       sha1_new (sort_key (\<lambda>v. lower (filename v)) (infolist self))"

text \<open>
  \<^verbatim>\<open>rlen = info.data_size; while rlen > 0: filehash.update(file.read(min(CHUNK_SIZE, rlen)));
  rlen = info.data_size - file.tell()\<close>
\<close>

partial_function (option) filehash_while ::
    "PboInfo \<Rightarrow> int \<Rightarrow> member_file \<Rightarrow> sha1_obj \<Rightarrow> (error + sha1_obj) option" where
  "filehash_while i rlen file h =
     (if rlen > 0
      then (case member_read file (min CHUNK_SIZE rlen) of Inl e \<Rightarrow> Some (Inl e)
            | Inr (data, file') \<Rightarrow>
                filehash_while i (data_size i - member_tell file') file' (update h data))
      else Some (Inr h))"

declare filehash_while.simps [code]

fun filehash_for ::
    "PboFile \<Rightarrow> int \<Rightarrow> PboInfo list \<Rightarrow> sha1_obj \<Rightarrow> bool \<Rightarrow> (error + sha1_obj \<times> bool) option" where
  "filehash_for self version [] h nothing = Some (Inr (h, nothing))"
| "filehash_for self version (i # is) h nothing =
     (case check_file_hash i version of Inl e \<Rightarrow> Some (Inl e)
      | Inr c \<Rightarrow>
          if c
          then ebind (filehash_while i (data_size i) (pbo_open self i) h) (\<lambda>h'.
                 filehash_for self version is h' False)
          else filehash_for self version is h nothing)"

definition filehash :: "PboFile \<Rightarrow> int \<Rightarrow> (error + sha1_obj) option" where
  "filehash self version =
     ebind (filehash_for self version (infolist self) sha1_new True) (\<lambda>(h, nothing).
       if nothing
       then (if version = 2 then Some (Inr (update h ''nothing''))
             else if version = 3 then Some (Inr (update h ''gnihton''))
             else Some (Inl ValueError))
       else Some (Inr h))"

subsection \<open>\<^verbatim>\<open>PboFile.hash1\<close> and \<^verbatim>\<open>PboFile.hash\<close>\<close>

text \<open>\<^verbatim>\<open>while rlen > 0: hash1.update(file.read(min(CHUNK_SIZE, rlen))); rlen = end - file.tell()\<close>\<close>

partial_function (option) hash1_while ::
    "int \<Rightarrow> int \<Rightarrow> pyfile \<Rightarrow> sha1_obj \<Rightarrow> (sha1_obj \<times> pyfile) option" where
  "hash1_while endpos rlen file h =
     (if rlen > 0
      then (case fread file (min CHUNK_SIZE rlen) of (data, file') \<Rightarrow>
              hash1_while endpos (endpos - ftell file') file' (update h data))
      else Some (h, file))"

declare hash1_while.simps [code]

text \<open>
  The result is the hash object and the file object as the call leaves it; \<open>file = None\<close>
  stands for the default, the backing file \<^verbatim>\<open>self.fp\<close>.
\<close>

definition hash1 :: "PboFile \<Rightarrow> pyfile option \<Rightarrow> (error + sha1_obj \<times> pyfile) option" where
  "hash1 self file =
     (case (case file of None \<Rightarrow> pbo_fp self | Some f \<Rightarrow> Some f) of
        None \<Rightarrow> Some (Inl AttributeError)
      | Some f \<Rightarrow>
          (let oldpos = ftell f in
           case fseek f (- 21) 2 of Inl e \<Rightarrow> Some (Inl e)
           | Inr f1 \<Rightarrow>
              (let endpos = ftell f1 in
               case fseek f1 0 0 of Inl e \<Rightarrow> Some (Inl e)
               | Inr f2 \<Rightarrow>
                  Option.bind (hash1_while endpos endpos f2 sha1_new) (\<lambda>(h, f3).
                    case fseek f3 oldpos 0 of Inl e \<Rightarrow> Some (Inl e)
                    | Inr f4 \<Rightarrow> Some (Inr (h, f4))))))"

text \<open>What both \<^verbatim>\<open>hash2\<close> and \<^verbatim>\<open>hash3\<close> are fed last: the prefix and a backslash, if any.\<close>

definition update_prefix :: "PboFile \<Rightarrow> sha1_obj \<Rightarrow> sha1_obj" where
  "update_prefix self h =
     (case map_of (header_extension self) ''prefix'' of None \<Rightarrow> h
      | Some v \<Rightarrow> update h (v @ [CHR 0x5C]))"

definition hash :: "PboFile \<Rightarrow> pyfile option \<Rightarrow> int \<Rightarrow> (error + sha1_obj \<times> sha1_obj \<times> sha1_obj) option" where
  "hash self file version =
     ebind (hash1 self file) (\<lambda>(hash1, file').
       let nh = namehash self;
           hash2 = update_prefix self (update (update sha1_new (digest hash1)) (digest nh))
       in ebind (filehash self version) (\<lambda>fh.
            let hash3 = update_prefix self (update (update sha1_new (digest fh)) (digest nh))
            in Some (Inr (hash1, hash2, hash3))))"

section \<open>Keys and signatures\<close>

record PublicKey =
  name :: bytes
  bitlen :: int
  public_exponent :: int
  modulus :: int

record PrivateKey =
  public_key :: PublicKey
  private_exponent :: int
  prime1 :: int
  prime2 :: int
  exponent1 :: int
  exponent2 :: int
  coefficient :: int

record Bisign =
  sig_public_key :: PublicKey
  version :: int
  sig1 :: int
  sig2 :: int
  sig3 :: int

text \<open>
  Python's three-argument \<^verbatim>\<open>pow(b, e, m)\<close>, after CPython's \<^verbatim>\<open>long_pow\<close>: a zero modulus is
  a ValueError; a modulus \<open>1\<close> or \<open>-1\<close> gives \<open>0\<close>; a negative exponent is negated and the
  base replaced by its inverse modulo \<open>\<bar>m\<bar>\<close> (\<^verbatim>\<open>long_invmod\<close>, the extended Euclidean
  algorithm, a ValueError when the base is not invertible); then the power by repeated
  squaring. The result has the sign of the modulus, as \<open>mod\<close> on \<open>int\<close> has.
\<close>

definition powmod_step :: "int \<Rightarrow> int \<Rightarrow> int \<Rightarrow> int \<Rightarrow> int" where
  "powmod_step h r b m = (if r = 0 then h * h mod m else h * h mod m * b mod m)"

function powmod :: "int \<Rightarrow> int \<Rightarrow> int \<Rightarrow> int" where
  "powmod b e m =
     (if e \<le> 0 then 1 mod m else powmod_step (powmod b (e div 2) m) (e mod 2) b m)"
  by pat_completeness auto
termination
  by (relation "measure (\<lambda>(b, e, m). nat e)") auto

declare powmod.simps [simp del]

text \<open>\<^verbatim>\<open>while n != 0: q, r = divmod(a, n); a, n = n, r; b, c = c, b - q * c\<close>\<close>

function long_invmod_while :: "int \<Rightarrow> int \<Rightarrow> int \<Rightarrow> int \<Rightarrow> int \<times> int" where
  "long_invmod_while a n b c =
     (if n \<noteq> 0 then long_invmod_while n (a mod n) c (b - a div n * c) else (a, b))"
  by pat_completeness auto
termination
  by (relation "measure (\<lambda>(a, n, b, c). nat \<bar>n\<bar>)") (auto simp add: abs_mod_less)

declare long_invmod_while.simps [simp del]

definition long_invmod :: "int \<Rightarrow> int \<Rightarrow> error + int" where
  "long_invmod a n =
     (case long_invmod_while a n 1 0 of (g, b) \<Rightarrow> if g \<noteq> 1 then Inl ValueError else Inr b)"

definition pow3 :: "int \<Rightarrow> int \<Rightarrow> int \<Rightarrow> error + int" where
  "pow3 b e m =
     (if m = 0 then Inl ValueError
      else if \<bar>m\<bar> = 1 then Inr 0
      else if e < 0
      then (case long_invmod b \<bar>m\<bar> of Inl err \<Rightarrow> Inl err
            | Inr a \<Rightarrow> Inr (powmod a (- e) m))
      else Inr (powmod b e m))"

text \<open>One signature of \<^verbatim>\<open>sign\<close>: \<^verbatim>\<open>pow(padding(h, bitlen//8), private_exponent, modulus)\<close>.\<close>

definition sign_hash :: "PrivateKey \<Rightarrow> string \<Rightarrow> error + int" where
  "sign_hash pkey h =
     (case padding h (bitlen (public_key pkey) div 8) of Inl e \<Rightarrow> Inl e
      | Inr m \<Rightarrow> pow3 m (private_exponent pkey) (modulus (public_key pkey)))"

text \<open>One check of \<^verbatim>\<open>verify\<close>: \<^verbatim>\<open>padding(h, bitlen//8) == pow(sig, public_exponent, modulus)\<close>.\<close>

definition verify_hash :: "PublicKey \<Rightarrow> string \<Rightarrow> int \<Rightarrow> error + bool" where
  "verify_hash pkey h sg =
     (case padding h (bitlen pkey div 8) of Inl e \<Rightarrow> Inl e
      | Inr m \<Rightarrow> (case pow3 sg (public_exponent pkey) (modulus pkey) of Inl e \<Rightarrow> Inl e
                  | Inr v \<Rightarrow> Inr (m = v)))"

text \<open>
  \<^verbatim>\<open>sign\<close> and \<^verbatim>\<open>verify\<close> from the parsed key and signature and the archive's file object:
  \<^verbatim>\<open>sign\<close> returns the \<^verbatim>\<open>Bisign\<close> it exports, \<^verbatim>\<open>verify\<close> the status it exits with.
\<close>

definition sign :: "PrivateKey \<Rightarrow> pyfile \<Rightarrow> int \<Rightarrow> (error + Bisign) option" where
  "sign pkey pbo vers =
     ebind (from_file pbo) (\<lambda>p.
     ebind (hash p None vers) (\<lambda>(hash1, hash2, hash3).
       case sign_hash pkey (hexdigest hash1) of Inl e \<Rightarrow> Some (Inl e)
       | Inr s1 \<Rightarrow>
       (case sign_hash pkey (hexdigest hash2) of Inl e \<Rightarrow> Some (Inl e)
        | Inr s2 \<Rightarrow>
        (case sign_hash pkey (hexdigest hash3) of Inl e \<Rightarrow> Some (Inl e)
         | Inr s3 \<Rightarrow>
            Some (Inr \<lparr>sig_public_key = public_key pkey, version = vers,
                       sig1 = s1, sig2 = s2, sig3 = s3\<rparr>)))))"

definition verify :: "PublicKey \<Rightarrow> Bisign \<Rightarrow> pyfile \<Rightarrow> (error + int) option" where
  "verify pkey bsign pbo =
     ebind (from_file pbo) (\<lambda>p.
     ebind (hash p None (version bsign)) (\<lambda>(hash1, hash2, hash3).
       case verify_hash pkey (hexdigest hash1) (sig1 bsign) of Inl e \<Rightarrow> Some (Inl e)
       | Inr verify1 \<Rightarrow>
       (case verify_hash pkey (hexdigest hash2) (sig2 bsign) of Inl e \<Rightarrow> Some (Inl e)
        | Inr verify2 \<Rightarrow>
        (case verify_hash pkey (hexdigest hash3) (sig3 bsign) of Inl e \<Rightarrow> Some (Inl e)
         | Inr verify3 \<Rightarrow>
            Some (Inr (if verify1 \<and> verify2 \<and> verify3 then 0 else 1))))))"

section \<open>Notions used to state the properties\<close>

text \<open>The bytes of an archived member: its slice of the backing file.\<close>

definition payload :: "pyfile \<Rightarrow> PboInfo \<Rightarrow> bytes" where
  "payload f i = take (nat (data_size i)) (drop (nat (data_offset i)) (content f))"

text \<open>A member that lives in the backing file \<open>f\<close>, with its whole slice inside it.\<close>

definition in_archive :: "pyfile \<Rightarrow> PboInfo \<Rightarrow> bool" where
  "in_archive f i \<longleftrightarrow> fp i = None \<and> 0 \<le> data_offset i
     \<and> data_offset i + data_size i \<le> int (length (content f))"

text \<open>The members \<^verbatim>\<open>check_file_hash\<close> selects.\<close>

definition selected :: "int \<Rightarrow> PboInfo \<Rightarrow> bool" where
  "selected vers i \<longleftrightarrow> check_file_hash i vers = Inr True"

text \<open>What the prefix contributes to \<^verbatim>\<open>hash2\<close> and \<^verbatim>\<open>hash3\<close>: itself and a backslash.\<close>

definition prefix_bytes :: "PboFile \<Rightarrow> bytes" where
  "prefix_bytes self =
     (case map_of (header_extension self) ''prefix'' of None \<Rightarrow> [] | Some p \<Rightarrow> p @ [CHR 0x5C])"

subsection \<open>The layout of a PBO file\<close>

text \<open>
  The file format as the specification describes it (section 4.3), written as a function
  from what an archive holds to its bytes: the leading record, the header-extension pairs,
  the index records, 21 NUL bytes, the payloads, and a NUL with the SHA-1 of everything
  before it. It is what \<open>from_file\<close> and \<open>export\<close> are compared with.
\<close>

record member =
  m_name :: bytes
  m_packing_method :: int
  m_original_size :: int
  m_reserved :: int
  m_timestamp :: int
  m_data :: bytes

definition u32 :: "int \<Rightarrow> bool" where
  "u32 v \<longleftrightarrow> 0 \<le> v \<and> v < 4294967296"

definition extension_pair :: "bytes \<times> bytes \<Rightarrow> bytes" where
  "extension_pair kv = fst kv @ [NUL] @ snd kv @ [NUL]"

definition index_record :: "member \<Rightarrow> bytes" where
  "index_record m =
     m_name m @ [NUL] @ le_bytes 4 (m_packing_method m) @ le_bytes 4 (m_original_size m)
       @ le_bytes 4 (m_reserved m) @ le_bytes 4 (m_timestamp m)
       @ le_bytes 4 (int (length (m_data m)))"

definition pbo_head :: "int \<times> int \<times> int \<times> int \<times> int \<Rightarrow> (bytes \<times> bytes) list \<Rightarrow> member list \<Rightarrow> bytes" where
  "pbo_head lead ext ms =
     (case lead of (h1, h2, h3, h4, h5) \<Rightarrow>
        [NUL] @ le_bytes 4 h1 @ le_bytes 4 h2 @ le_bytes 4 h3 @ le_bytes 4 h4 @ le_bytes 4 h5)
     @ concat (map extension_pair ext) @ [NUL]
     @ concat (map index_record ms) @ replicate 21 NUL"

definition pbo_body :: "int \<times> int \<times> int \<times> int \<times> int \<Rightarrow> (bytes \<times> bytes) list \<Rightarrow> member list \<Rightarrow> bytes" where
  "pbo_body lead ext ms = pbo_head lead ext ms @ concat (map m_data ms)"

definition pbo_bytes :: "int \<times> int \<times> int \<times> int \<times> int \<Rightarrow> (bytes \<times> bytes) list \<Rightarrow> member list \<Rightarrow> bytes" where
  "pbo_bytes lead ext ms = pbo_body lead ext ms @ [NUL] @ sha1 (pbo_body lead ext ms)"

text \<open>
  A valid file: every field fits 32 bits, no string holds a NUL, keys and names are not
  empty, the header-extension keys are distinct, and the index is in strictly ascending
  (lexicographic, byte-wise) order of the filenames.
\<close>

definition valid_member :: "member \<Rightarrow> bool" where
  "valid_member m \<longleftrightarrow> m_name m \<noteq> [] \<and> NUL \<notin> set (m_name m)
     \<and> u32 (m_packing_method m) \<and> u32 (m_original_size m) \<and> u32 (m_reserved m)
     \<and> u32 (m_timestamp m) \<and> u32 (int (length (m_data m)))"

definition valid_pair :: "bytes \<times> bytes \<Rightarrow> bool" where
  "valid_pair kv \<longleftrightarrow> fst kv \<noteq> [] \<and> NUL \<notin> set (fst kv) \<and> NUL \<notin> set (snd kv)"

definition valid_pbo :: "int \<times> int \<times> int \<times> int \<times> int \<Rightarrow> (bytes \<times> bytes) list \<Rightarrow> member list \<Rightarrow> bool" where
  "valid_pbo lead ext ms \<longleftrightarrow>
     (case lead of (h1, h2, h3, h4, h5) \<Rightarrow> u32 h1 \<and> u32 h2 \<and> u32 h3 \<and> u32 h4 \<and> u32 h5)
     \<and> list_all valid_pair ext \<and> distinct (map fst ext)
     \<and> list_all valid_member ms \<and> sorted_wrt (<) (map m_name ms)"

text \<open>The index entry \<open>from_file\<close> builds for a member, before the offsets are assigned.\<close>

definition info_of :: "member \<Rightarrow> bytes \<times> PboInfo" where
  "info_of m =
     (m_name m, new_PboInfo (m_name m) (m_packing_method m) (m_original_size m) (m_reserved m)
                  (m_timestamp m) (int (length (m_data m))) None)"

text \<open>What a file object has still to deliver, and the object \<open>n\<close> bytes further on.\<close>

definition remaining :: "pyfile \<Rightarrow> bytes" where
  "remaining f = drop (fpos f) (content f)"

definition advance :: "pyfile \<Rightarrow> nat \<Rightarrow> pyfile" where
  "advance f n = f\<lparr>fpos := fpos f + n\<rparr>"

subsection \<open>RSA keys\<close>



section \<open>A small archive\<close>

text \<open>
  Scenario S4 of the specification: one member \<^verbatim>\<open>data.sqf\<close> holding the byte \<^verbatim>\<open>x\<close>, the
  header extension \<^verbatim>\<open>prefix = myAddon\<close>. \<open>example_body\<close> is everything before the trailing
  NUL and SHA-1.
\<close>

definition example_body :: bytes where
  "example_body =
     NUL # ''sreV'' @ replicate 16 NUL
       @ ''prefix'' @ [NUL] @ ''myAddon'' @ [NUL] @ [NUL]
       @ ''data.sqf'' @ [NUL] @ replicate 16 NUL @ [CHR 0x01, NUL, NUL, NUL]
       @ replicate 21 NUL
       @ ''x''"

definition example_file :: pyfile where
  "example_file = \<lparr>content = example_body @ NUL # sha1 example_body, fpos = 0, mtime = 0\<rparr>"

definition example_pbo :: PboFile where
  "example_pbo =
     \<lparr>header = ([], 0x56657273, 0, 0, 0, 0),
      header_extension = [(''prefix'', ''myAddon'')],
      filedict = [(''data.sqf'', \<lparr>filename = ''data.sqf'', packing_method = 0,
                     original_size = 0, reserved = 0, timestamp = 0, data_size = 1,
                     fp = None, data_offset = 87\<rparr>)],
      pbo_fp = Some (example_file\<lparr>fpos := 87\<rparr>)\<rparr>"

text \<open>The same archive, and one with two members, as what they hold.\<close>

definition example_lead :: "int \<times> int \<times> int \<times> int \<times> int" where
  "example_lead = (0x56657273, 0, 0, 0, 0)"

definition example_ext :: "(bytes \<times> bytes) list" where
  "example_ext = [(''prefix'', ''myAddon'')]"

definition example_members :: "member list" where
  "example_members =
     [\<lparr>m_name = ''data.sqf'', m_packing_method = 0, m_original_size = 0, m_reserved = 0,
       m_timestamp = 0, m_data = ''x''\<rparr>]"

definition two_members :: "member list" where
  "two_members =
     [\<lparr>m_name = ''config.cpp'', m_packing_method = 0, m_original_size = 0, m_reserved = 0,
       m_timestamp = 1700000000, m_data = ''class X {};''\<rparr>,
      \<lparr>m_name = ''data.sqf'', m_packing_method = 0, m_original_size = 0, m_reserved = 0,
       m_timestamp = 1700000001, m_data = ''x''\<rparr>]"




section \<open>Properties of the conversions\<close>

lemma of_char_int_bounds: "0 \<le> (of_char c :: int) \<and> (of_char c :: int) < 256"
proof -
  have "(of_char c :: int) = int (of_char c)"
    by (simp only: of_nat_of_char)
  moreover have "(of_char c :: nat) < 256"
    by simp
  ultimately show ?thesis
    by simp
qed

lemma hex_val_hexdigit:
  assumes "0 \<le> v" "v < 16"
  shows "hex_val (hexdigit v) = Some v"
proof -
  have "v = 0 \<or> v = 1 \<or> v = 2 \<or> v = 3 \<or> v = 4 \<or> v = 5 \<or> v = 6 \<or> v = 7 \<or> v = 8
      \<or> v = 9 \<or> v = 10 \<or> v = 11 \<or> v = 12 \<or> v = 13 \<or> v = 14 \<or> v = 15"
    using assms by presburger
  then show ?thesis
    by (elim disjE; simp add: hex_val_def hexdigit_def)
qed

lemma hex_digits_hexlify:
  "hex_digits (hexlify bs @ rest) acc
     = hex_digits rest (foldl (\<lambda>acc b. acc * 256 + of_char b) acc bs)"
proof (induction bs arbitrary: acc)
  case Nil
  then show ?case by (simp add: hexlify_def)
next
  case (Cons b bs)
  have b: "0 \<le> (of_char b :: int)" "(of_char b :: int) < 256"
    using of_char_int_bounds[of b] by simp_all
  have hi: "hex_val (hexdigit (of_char b div 16)) = Some (of_char b div 16)"
    using b by (intro hex_val_hexdigit) auto
  have lo: "hex_val (hexdigit (of_char b mod 16)) = Some (of_char b mod 16)"
    by (intro hex_val_hexdigit) auto
  have split: "16 * (16 * acc + of_char b div 16) + of_char b mod 16 = acc * 256 + (of_char b :: int)"
    by (simp add: algebra_simps)
  have "hexlify (b # bs) = hexdigit (of_char b div 16) # hexdigit (of_char b mod 16) # hexlify bs"
    by (simp add: hexlify_def)
  then have "hex_digits (hexlify (b # bs) @ rest) acc
      = hex_digits (hexlify bs @ rest) (16 * (16 * acc + of_char b div 16) + of_char b mod 16)"
    by (simp add: hi lo)
  then show ?case
    unfolding split using Cons.IH[of "acc * 256 + of_char b"] by simp
qed

lemma long16_0x_hexlify:
  assumes "bs \<noteq> []"
  shows "long16 (''0x'' @ hexlify bs) = Inr (be_int bs)"
proof -
  obtain b bs' where bs: "bs = b # bs'"
    using assms by (cases bs) auto
  have ne: "hexlify bs \<noteq> []"
    by (simp add: bs hexlify_def)
  have "long16 (''0x'' @ hexlify bs) = hex_digits (hexlify bs @ []) 0"
    using ne by (simp add: long16_def)
  also have "\<dots> = Inr (be_int bs)"
    unfolding hex_digits_hexlify by (simp add: be_int_def)
  finally show ?thesis .
qed

lemma hexlify_append: "hexlify (xs @ ys) = hexlify xs @ hexlify ys"
  by (simp add: hexlify_def)

lemma hexlify_replicate_ff: "concat (replicate n ''ff'') = hexlify (replicate n (CHR 0xFF))"
  by (induction n) (simp_all add: hexlify_def hexdigit_def)

lemma length_hexlify: "length (hexlify bs) = 2 * length bs"
  by (induction bs) (simp_all add: hexlify_def)

lemma foldl_be_bounds:
  "0 \<le> acc \<Longrightarrow> 0 \<le> foldl (\<lambda>acc b. acc * 256 + (of_char b :: int)) acc bs"
proof (induction bs arbitrary: acc)
  case (Cons b bs)
  then show ?case using of_char_int_bounds[of b] by simp
qed simp

lemma be_int_nonneg: "0 \<le> be_int bs"
  by (simp add: be_int_def foldl_be_bounds)

lemma be_int_snoc: "be_int (bs @ [b]) = be_int bs * 256 + of_char b"
  by (simp add: be_int_def)

lemma be_int_less: "be_int bs < 256 ^ length bs"
proof (induction bs rule: rev_induct)
  case Nil
  then show ?case by (simp add: be_int_def)
next
  case (snoc b bs)
  have "be_int bs + 1 \<le> 256 ^ length bs"
    using snoc by simp
  then have "(be_int bs + 1) * 256 \<le> 256 ^ length bs * 256"
    by (rule mult_right_mono) simp
  then show ?case
    using of_char_int_bounds[of b] by (simp add: be_int_snoc algebra_simps)
qed

lemma le_bytes_be_int: "rev (le_bytes (length bs) (be_int bs)) = bs"
proof (induction bs rule: rev_induct)
  case Nil
  then show ?case by simp
next
  case (snoc b bs)
  have m: "(be_int bs * 256 + of_char b) mod 256 = (of_char b :: int)"
    using of_char_int_bounds[of b] by simp
  have d: "(be_int bs * 256 + of_char b) div 256 = be_int bs"
    using of_char_int_bounds[of b] by simp
  show ?case
    using snoc by (simp add: be_int_snoc m d)
qed

lemma int_to_bytes_be_int:
  "int_to_bytes (be_int bs) (int (length bs)) big = Inr bs"
  using be_int_less[of bs] be_int_nonneg[of bs]
  by (simp add: int_to_bytes_def le_bytes_be_int)

lemma le_bytes_be_int_rev: "le_bytes (length bs) (be_int (rev bs)) = bs"
  using le_bytes_be_int[of "rev bs"] by (simp add: rev_swap)

lemma padding_hexlify:
  "padding (hexlify h) k = Inr (be_int (emsa_encoding h k))"
proof -
  have di: "''3021300906052b0e03021a05000414'' = hexlify digest_info"
    by (simp add: hexlify_def digest_info_def hexdigit_def)
  have h01: "''0001'' = hexlify [CHR 0x00, CHR 0x01]"
    by (simp add: hexlify_def hexdigit_def)
  have h00: "''00'' = hexlify [CHR 0x00]"
    by (simp add: hexlify_def hexdigit_def)
  have n: "tlen - int (length (hexlify h)) div 2 - 3 - 15 = tlen - int (length h) - 18" for tlen
    by (simp add: length_hexlify)
  have "''0x0001'' @ concat (replicate (nat (k - int (length (hexlify h)) div 2 - 3 - 15)) ''ff'')
             @ ''00'' @ ''3021300906052b0e03021a05000414'' @ hexlify h
        = ''0x'' @ hexlify (emsa_encoding h k)"
    unfolding n hexlify_replicate_ff emsa_encoding_def hexlify_append
    by (simp add: hexlify_def digest_info_def hexdigit_def)
  then show ?thesis
    unfolding padding_def by (simp only: long16_0x_hexlify emsa_encoding_def append_is_Nil_conv list.simps simp_thms)
qed

section \<open>Padding: claims C6 and C7\<close>

text \<open>
  C6. For every 20-byte digest \<open>h\<close>, given as its 40-character hex string, and every
  \<open>k \<ge> 64\<close>, \<^verbatim>\<open>padding(h, k)\<close> returns an integer whose big-endian encoding on \<open>k\<close> bytes
  is \<open>00 01\<close>, then \<open>k - 38\<close> bytes \<open>FF\<close>, then \<open>00\<close>, the 15 bytes of the SHA-1
  DigestInfo prefix and the 20 digest bytes; the encoding has exactly \<open>k\<close> bytes.
\<close>

theorem padding_encoding:
  assumes "length h = 20" and "64 \<le> k"
  shows "\<exists>m enc. padding (hexlify h) k = Inr m
           \<and> int_to_bytes m k big = Inr enc
           \<and> enc = [CHR 0x00, CHR 0x01] @ replicate (nat (k - 38)) (CHR 0xFF) @ [CHR 0x00]
                     @ digest_info @ h
           \<and> int (length enc) = k \<and> take 2 enc = [CHR 0x00, CHR 0x01]"
proof -
  let ?enc = "emsa_encoding h k"
  have enc: "?enc = [CHR 0x00, CHR 0x01] @ replicate (nat (k - 38)) (CHR 0xFF) @ [CHR 0x00]
                     @ digest_info @ h"
    using assms by (simp add: emsa_encoding_def)
  have len: "int (length ?enc) = k"
    using assms by (simp add: emsa_encoding_def digest_info_def)
  have "int_to_bytes (be_int ?enc) k big = Inr ?enc"
    using int_to_bytes_be_int[of ?enc] by (simp only: len)
  moreover have "take 2 ?enc = [CHR 0x00, CHR 0x01]"
    by (simp add: emsa_encoding_def)
  ultimately show ?thesis
    using padding_hexlify[of h k] enc len by blast
qed

theorem padding_encoding_witness:
  "length (replicate 20 (CHR 0xA9)) = 20 \<and> (64::int) \<le> 64
   \<and> (\<exists>m enc. padding (hexlify (replicate 20 (CHR 0xA9))) 64 = Inr m
           \<and> int_to_bytes m 64 big = Inr enc
           \<and> enc = [CHR 0x00, CHR 0x01] @ replicate (nat (64 - 38)) (CHR 0xFF) @ [CHR 0x00]
                     @ digest_info @ replicate 20 (CHR 0xA9)
           \<and> int (length enc) = 64 \<and> take 2 enc = [CHR 0x00, CHR 0x01])"
  using padding_encoding[of "replicate 20 (CHR 0xA9)" 64] by simp

text \<open>
  C7, as stated: for \<open>k < 64\<close> the padding fails with a ModulusTooSmall error. The source
  has no check on \<open>k\<close>: at \<open>k = 63\<close> and the digest of \<^verbatim>\<open>abc\<close> it returns the integer
  \<open>0x0001 ff..ff 00 3021..0414 a999..d89d\<close>.
\<close>

theorem padding_small_modulus_counterexample:
  "padding ''a9993e364706816aba3e25717850c26c9cd0d89d'' 63
     = Inr 0x1ffffffffffffffffffffffffffffffffffffffffffffffffff003021300906052b0e03021a05000414a9993e364706816aba3e25717850c26c9cd0d89d"
  by code_simp

text \<open>
  C7, amended: for every 20-byte digest \<open>h\<close> and every \<open>k < 64\<close>, \<^verbatim>\<open>padding(h, k)\<close>
  raises nothing and returns the integer whose big-endian digits are \<open>00 01\<close>,
  \<open>max(0, k - 38)\<close> bytes \<open>FF\<close>, \<open>00\<close>, the DigestInfo prefix and the digest.
\<close>

theorem padding_small_modulus:
  assumes "length h = 20" and "k < 64"
  shows "padding (hexlify h) k
           = Inr (be_int ([CHR 0x00, CHR 0x01] @ replicate (nat (k - 38)) (CHR 0xFF)
                            @ [CHR 0x00] @ digest_info @ h))"
  using assms padding_hexlify[of h k] by (simp add: emsa_encoding_def)

theorem padding_small_modulus_witness:
  "length (replicate 20 (CHR 0xA9)) = 20 \<and> (10::int) < 64
   \<and> padding (hexlify (replicate 20 (CHR 0xA9))) 10
         = Inr (be_int ([CHR 0x00, CHR 0x01] @ replicate (nat (10 - 38)) (CHR 0xFF)
                            @ [CHR 0x00] @ digest_info @ replicate 20 (CHR 0xA9)))"
  using padding_small_modulus[of "replicate 20 (CHR 0xA9)" 10] by simp

section \<open>Reading from files\<close>

lemma fread_simps [simp]:
  "fst (fread f n) = (if n < 0 then drop (fpos f) (content f) else take (nat n) (drop (fpos f) (content f)))"
  "content (snd (fread f n)) = content f"
  "mtime (snd (fread f n)) = mtime f"
  "fpos (snd (fread f n)) = fpos f + length (fst (fread f n))"
  by (simp_all add: fread_def Let_def)

lemma fread_exact:
  assumes "0 \<le> n" and "fpos f + nat n \<le> length (content f)"
  shows "fread f n = (take (nat n) (drop (fpos f) (content f)), f\<lparr>fpos := fpos f + nat n\<rparr>)"
  using assms by (simp add: fread_def Let_def min_def)

lemma take_add_drop: "take n xs @ take m (drop n xs) = take (n + m) xs"
  by (simp add: take_add)

lemma hash1_while_reads:
  assumes "fpos f \<le> e" and "e \<le> length (content f)"
  shows "hash1_while (int e) (int e - int (fpos f)) f h
           = Some (h @ take (e - fpos f) (drop (fpos f) (content f)), f\<lparr>fpos := e\<rparr>)"
  using assms
proof (induction "e - fpos f" arbitrary: f h rule: less_induct)
  case less
  show ?case
  proof (cases "fpos f = e")
    case True
    then show ?thesis
      by (subst hash1_while.simps) simp
  next
    case False
    define n where "n = min CHUNK_SIZE (int e - int (fpos f))"
    have n: "0 < n" "nat n \<le> e - fpos f"
      using False less.prems by (auto simp: n_def CHUNK_SIZE_def)
    define f' where "f' = f\<lparr>fpos := fpos f + nat n\<rparr>"
    have rd: "fread f n = (take (nat n) (drop (fpos f) (content f)), f')"
      unfolding f'_def using n less.prems by (intro fread_exact) auto
    have IH: "hash1_while (int e) (int e - int (fpos f')) f' h'
           = Some (h' @ take (e - fpos f') (drop (fpos f') (content f')), f'\<lparr>fpos := e\<rparr>)" for h'
      using n less.prems by (intro less.hyps) (auto simp: f'_def)
    have tell: "int e - ftell f' = int e - int (fpos f')"
      by (simp add: ftell_def)
    have "hash1_while (int e) (int e - int (fpos f)) f h
            = hash1_while (int e) (int e - int (fpos f')) f' (update h (take (nat n) (drop (fpos f) (content f))))"
      using False less.prems
      by (subst hash1_while.simps) (simp add: rd n_def[symmetric] tell)
    also have "\<dots> = Some (h @ take (nat n) (drop (fpos f) (content f))
                           @ take (e - fpos f') (drop (fpos f') (content f')), f'\<lparr>fpos := e\<rparr>)"
      by (simp add: IH update_def)
    also have "take (nat n) (drop (fpos f) (content f)) @ take (e - fpos f') (drop (fpos f') (content f'))
                 = take (e - fpos f) (drop (fpos f) (content f))"
    proof -
      have "e - fpos f = nat n + (e - fpos f')"
        using n by (simp add: f'_def)
      moreover have "drop (fpos f') (content f') = drop (nat n) (drop (fpos f) (content f))"
        by (simp add: f'_def add.commute)
      ultimately show ?thesis
        by (simp only: take_add_drop)
    qed
    finally show ?thesis
      by (simp add: f'_def)
  qed
qed

lemma fseek_simps:
  "fseek f off 0 = (if off < 0 then Inl IOError else Inr (f\<lparr>fpos := nat off\<rparr>))"
  "fseek f off 2 = (if int (length (content f)) + off < 0 then Inl IOError
                    else Inr (f\<lparr>fpos := nat (int (length (content f)) + off)\<rparr>))"
  by (simp_all add: fseek_def)

lemma hash1_file:
  "hash1 self (Some f) =
     (if length (content f) < 21 then Some (Inl IOError)
      else Some (Inr (take (length (content f) - 21) (content f), f)))"
proof (cases "length (content f) < 21")
  case True
  then show ?thesis
    by (simp add: hash1_def fseek_simps)
next
  case False
  define e where "e = length (content f) - 21"
  define f2 where "f2 = f\<lparr>fpos := 0\<rparr>"
  have ge: "21 \<le> length (content f)"
    using False by simp
  have s1: "fseek f (- 21) 2 = Inr (f\<lparr>fpos := e\<rparr>)"
    using ge by (simp add: fseek_simps e_def nat_diff_distrib)
  have s2: "fseek (f\<lparr>fpos := e\<rparr>) 0 0 = Inr f2"
    by (simp add: fseek_simps f2_def)
  have t1: "ftell (f\<lparr>fpos := e\<rparr>) = int e"
    by (simp add: ftell_def)
  have loop: "hash1_while (int e) (int e) f2 sha1_new
                = Some (take e (content f), f2\<lparr>fpos := e\<rparr>)"
    using hash1_while_reads[of f2 e sha1_new] by (simp add: f2_def e_def sha1_new_def)
  have s3: "fseek (f2\<lparr>fpos := e\<rparr>) (ftell f) 0 = Inr f"
    by (simp add: fseek_simps f2_def ftell_def)
  show ?thesis
    using False
    by (simp add: hash1_def Let_def s1 s2 t1 loop s3 e_def[symmetric])
qed


section \<open>The position of the hashed file: claim C10\<close>

text \<open>
  C10. \<^verbatim>\<open>PboFile.hash1(file)\<close> leaves the position of the file it reads unchanged: when
  the call returns, \<^verbatim>\<open>file.tell()\<close> is what it was before, although every byte from offset
  0 up to \<open>length - 21\<close> was read and hashed. The call returns for every file of at least
  21 bytes, for an explicit argument \<open>arg = Some f\<close> as for the default \<^verbatim>\<open>self.fp\<close>.
\<close>

theorem hash1_position_unchanged:
  assumes "(case arg of None \<Rightarrow> pbo_fp self | Some g \<Rightarrow> Some g) = Some f"
    and "21 \<le> length (content f)"
  shows "\<exists>h f'. hash1 self arg = Some (Inr (h, f'))
           \<and> ftell f' = ftell f \<and> content f' = content f
           \<and> h = take (length (content f) - 21) (content f)"
proof -
  have "hash1 self arg = hash1 self (Some f)"
    using assms(1) by (simp add: hash1_def)
  then show ?thesis
    using assms(2) by (simp add: hash1_file)
qed

theorem hash1_position_unchanged_witness:
  "(case None of None \<Rightarrow> pbo_fp \<lparr>header = ([], 0, 0, 0, 0, 0), header_extension = [],
          filedict = [], pbo_fp = Some \<lparr>content = replicate 30 (CHR ''z''), fpos = 7, mtime = 0\<rparr>\<rparr>
      | Some g \<Rightarrow> Some g) = Some \<lparr>content = replicate 30 (CHR ''z''), fpos = 7, mtime = 0\<rparr>
   \<and> 21 \<le> length (content \<lparr>content = replicate 30 (CHR ''z''), fpos = 7, mtime = 0\<rparr>)
   \<and> (\<exists>h f'. hash1 \<lparr>header = ([], 0, 0, 0, 0, 0), header_extension = [],
          filedict = [], pbo_fp = Some \<lparr>content = replicate 30 (CHR ''z''), fpos = 7, mtime = 0\<rparr>\<rparr>
          None = Some (Inr (h, f'))
        \<and> ftell f' = 7 \<and> h = replicate 9 (CHR ''z''))"
  using hash1_position_unchanged[where arg = None
      and self = "\<lparr>header = ([], 0, 0, 0, 0, 0), header_extension = [], filedict = [],
        pbo_fp = Some \<lparr>content = replicate 30 (CHR ''z''), fpos = 7, mtime = 0\<rparr>\<rparr>"
      and f = "\<lparr>content = replicate 30 (CHR ''z''), fpos = 7, mtime = 0\<rparr>"]
  by (auto simp add: ftell_def)

section \<open>\<^verbatim>\<open>unpack_asciiz\<close>\<close>

lemma unpack_asciiz_while_needs_nul:
  assumes "unpack_asciiz_while string byte f0 = Some y"
  shows "byte = [NUL] \<or> NUL \<in> set (drop (fpos f0) (content f0))"
proof (rule unpack_asciiz_while.raw_induct
    [where P = "\<lambda>string byte f y. byte = [NUL] \<or> NUL \<in> set (drop (fpos f) (content f))",
     OF _ assms])
  fix unpack string byte f y
  assume 1: "\<And>string byte f y. unpack string byte f = Some y \<Longrightarrow>
                byte = [NUL] \<or> NUL \<in> set (drop (fpos f) (content f))"
    "(if byte \<noteq> [NUL]
      then case fread f 1 of (byte', f') \<Rightarrow> unpack (string @ byte) byte' f'
      else Some (string, f)) = Some y"
  show "byte = [NUL] \<or> NUL \<in> set (drop (fpos f) (content f))"
  proof (cases "byte = [NUL]")
    case True
    then show ?thesis by simp
  next
    case False
    define b' where "b' = take 1 (drop (fpos f) (content f))"
    define f' where "f' = snd (fread f 1)"
    have rd: "fread f 1 = (b', f')"
      by (simp add: b'_def f'_def fread_def Let_def)
    from 1(2) False have "unpack (string @ byte) b' f' = Some y"
      by (simp add: rd)
    then have "b' = [NUL] \<or> NUL \<in> set (drop (fpos f') (content f'))"
      by (rule 1(1))
    moreover have "b' = [NUL] \<Longrightarrow> NUL \<in> set (drop (fpos f) (content f))"
      unfolding b'_def by (metis in_set_takeD list.set_intros(1))
    moreover have "set (drop (fpos f') (content f')) \<subseteq> set (drop (fpos f) (content f))"
      unfolding f'_def by (simp add: set_drop_subset_set_drop)
    ultimately show ?thesis
      by auto
  qed
qed

lemma unpack_asciiz_hangs:
  assumes "NUL \<notin> set (drop (fpos f) (content f))"
  shows "unpack_asciiz f = None"
proof (rule ccontr)
  assume "unpack_asciiz f \<noteq> None"
  then obtain y where y: "unpack_asciiz f = Some y"
    by auto
  define b' where "b' = take 1 (drop (fpos f) (content f))"
  define f' where "f' = snd (fread f 1)"
  have rd: "fread f 1 = (b', f')"
    by (simp add: b'_def f'_def fread_def Let_def)
  from y have "unpack_asciiz_while [] b' f' = Some y"
    by (simp add: unpack_asciiz_def rd)
  then have "b' = [NUL] \<or> NUL \<in> set (drop (fpos f') (content f'))"
    by (rule unpack_asciiz_while_needs_nul)
  moreover have "b' = [NUL] \<Longrightarrow> NUL \<in> set (drop (fpos f) (content f))"
    unfolding b'_def by (metis in_set_takeD list.set_intros(1))
  moreover have "set (drop (fpos f') (content f')) \<subseteq> set (drop (fpos f) (content f))"
    unfolding f'_def by (simp add: set_drop_subset_set_drop)
  ultimately show False
    using assms by auto
qed

lemma unpack_asciiz_loop:
  assumes "drop (fpos f) (content f) = s @ NUL # rest" and "NUL \<notin> set s"
  shows "(case fread f 1 of (b, f') \<Rightarrow> unpack_asciiz_while acc b f')
           = Some (acc @ s, f\<lparr>fpos := fpos f + length s + 1\<rparr>)"
  using assms
proof (induction s arbitrary: f acc)
  case Nil
  then have "fread f 1 = ([NUL], f\<lparr>fpos := fpos f + 1\<rparr>)"
    by (simp add: fread_def Let_def)
  then show ?case
    by (simp add: unpack_asciiz_while.simps)
next
  case (Cons c s)
  define f1 where "f1 = f\<lparr>fpos := fpos f + 1\<rparr>"
  have rd: "fread f 1 = ([c], f1)"
    using Cons.prems(1) by (simp add: fread_def Let_def f1_def)
  have "drop (fpos f1) (content f1) = drop 1 (drop (fpos f) (content f))"
    by (simp add: f1_def add.commute)
  then have d: "drop (fpos f1) (content f1) = s @ NUL # rest"
    using Cons.prems(1) by simp
  have "(case fread f1 1 of (b, f') \<Rightarrow> unpack_asciiz_while (acc @ [c]) b f')
          = Some ((acc @ [c]) @ s, f1\<lparr>fpos := fpos f1 + length s + 1\<rparr>)"
    using d Cons.prems(2) by (intro Cons.IH) auto
  moreover have "c \<noteq> NUL"
    using Cons.prems(2) by auto
  ultimately show ?case
    by (simp add: rd unpack_asciiz_while.simps[of acc "[c]"] f1_def)
qed

lemma unpack_asciiz_reads:
  assumes "drop (fpos f) (content f) = s @ NUL # rest" and "NUL \<notin> set s"
  shows "unpack_asciiz f = Some (s, f\<lparr>fpos := fpos f + length s + 1\<rparr>)"
  using unpack_asciiz_loop[OF assms, of "[]"] by (simp add: unpack_asciiz_def)

section \<open>Truncated input: claim C9\<close>

lemma from_file_no_nul_hangs:
  assumes "NUL \<notin> set (drop (fpos f) (content f))"
  shows "from_file f = None"
  by (simp add: from_file_def unpack_asciiz_hangs[OF assms])

lemma unpack_IIIII_short: "length b \<noteq> 20 \<Longrightarrow> unpack_IIIII b = Inl StructError"
  by (simp add: unpack_IIIII_def)

text \<open>
  C9. For every truncated PBO input stream (one that ends before an expected NUL terminator
  or before a complete index record), \<^verbatim>\<open>PboFile.from_file\<close> fails fast with an error; it
  does not hang. The source, on the stream that holds the leading record and then the
  header-extension key \<^verbatim>\<open>prefix\<close> cut before its terminator: \<^verbatim>\<open>unpack_asciiz\<close> loops
  on the empty reads at the end of the file, and \<^verbatim>\<open>from_file\<close> never returns.
\<close>

theorem from_file_truncated_hangs:
  "from_file \<lparr>content = NUL # ''sreV'' @ replicate 16 NUL @ ''prefix'', fpos = 0, mtime = 0\<rparr> = None"
proof -
  let ?c = "NUL # ''sreV'' @ replicate 16 NUL @ ''prefix''"
  let ?f = "\<lparr>content = ?c, fpos = 0, mtime = 0\<rparr>"
  have 1: "unpack_asciiz ?f = Some ([], ?f\<lparr>fpos := 1\<rparr>)"
    using unpack_asciiz_reads[of ?f "[]" "''sreV'' @ replicate 16 NUL @ ''prefix''"] by simp
  have 2: "fread (?f\<lparr>fpos := 1\<rparr>) 20 = (''sreV'' @ replicate 16 NUL, ?f\<lparr>fpos := 21\<rparr>)"
    by (simp add: fread_def)
  have 3: "unpack_IIIII (''sreV'' @ replicate 16 NUL) = Inr (0x56657273, 0, 0, 0, 0)"
    by code_simp
  have 4: "unpack_asciiz (?f\<lparr>fpos := 21\<rparr>) = None"
    by (rule unpack_asciiz_hangs) simp
  show ?thesis
    by (simp only: from_file_def 1 2 3 4 Option.bind.simps prod.case sum.case)
qed

text \<open>A stream cut inside an index record does fail fast, with a struct.error.\<close>

lemma from_file_truncated_record:
  "from_file \<lparr>content = NUL # ''sreV'' @ replicate 16 NUL @ [NUL] @ ''a.sqf'' @ [NUL] @ replicate 7 NUL,
      fpos = 0, mtime = 0\<rparr> = Some (Inl StructError)"
  by code_simp

section \<open>The name hash: claim C4\<close>

lemma foldl_update_filter:
  "foldl (\<lambda>h i. if P i then update h (g i) else h) h0 xs = h0 @ concat (map g (filter P xs))"
  by (induction xs arbitrary: h0) (simp_all add: update_def)

lemma map_sort_key: "map f (sort_key f xs) = sort (map f xs)"
proof (rule properties_for_sort[symmetric])
  show "mset (map f (sort_key f xs)) = mset (map f xs)"
    by simp
  show "sorted (map f (sort_key f xs))"
    by simp
qed

lemma namehash_fed:
  "namehash self = concat (sort (map (\<lambda>i. lower (filename i))
                      (filter (\<lambda>i. get_data_size i > 0) (infolist self))))"
proof -
  let ?key = "\<lambda>i. lower (filename i)"
  let ?P = "\<lambda>i. get_data_size i > 0"
  have "namehash self = concat (map ?key (filter ?P (sort_key ?key (infolist self))))"
    by (simp add: namehash_def foldl_update_filter sha1_new_def check_name_hash_def)
  also have "filter ?P (sort_key ?key (infolist self)) = sort_key ?key (filter ?P (infolist self))"
    by (rule filter_sort)
  also have "map ?key (sort_key ?key (filter ?P (infolist self))) = sort (map ?key (filter ?P (infolist self)))"
    by (rule map_sort_key)
  finally show ?thesis .
qed

text \<open>
  C4. The name hash is the SHA-1 of the concatenation of the lowercased filenames (nothing
  between them) of exactly the entries whose data size is positive, in ascending order of
  the lowercased filename; with no entries it is the SHA-1 of the empty string.
\<close>

theorem namehash_digest:
  "digest (namehash self)
     = sha1 (concat (sort (map (\<lambda>i. lower (filename i))
                (filter (\<lambda>i. get_data_size i > 0) (infolist self)))))
   \<and> (filedict self = [] \<longrightarrow> digest (namehash self) = sha1 [])"
  by (simp add: digest_def namehash_fed infolist_def)

theorem namehash_digest_witness:
  "filedict \<lparr>header = ([], 0x56657273, 0, 0, 0, 0), header_extension = [], filedict = [],
             pbo_fp = None\<rparr> = []
   \<and> digest (namehash \<lparr>header = ([], 0x56657273, 0, 0, 0, 0), header_extension = [],
                        filedict = [], pbo_fp = None\<rparr>) = sha1 []"
  using namehash_digest[of "\<lparr>header = ([], 0x56657273, 0, 0, 0, 0), header_extension = [],
                            filedict = [], pbo_fp = None\<rparr>"]
  by (simp add: infolist_def)


text \<open>Scenario S2 of the specification: \<^verbatim>\<open>init.sqf\<close> and \<^verbatim>\<open>readme.txt\<close>, and an empty member.\<close>

lemma namehash_example:
  "namehash \<lparr>header = ([], 0x56657273, 0, 0, 0, 0), header_extension = [],
      filedict = [(''readme.txt'', new_PboInfo ''readme.txt'' 0 0 0 0 4 None),
                  (''Empty.sqf'', new_PboInfo ''Empty.sqf'' 0 0 0 0 0 None),
                  (''Init.sqf'', new_PboInfo ''Init.sqf'' 0 0 0 0 10 None)],
      pbo_fp = None\<rparr> = ''init.sqfreadme.txt''"
  by code_simp

section \<open>The file hash\<close>

lemma PboExtFile_read_chunk:
  assumes "content g = c" and "0 \<le> p" and "0 < n" and "p + n \<le> data_offset i + data_size i"
    and "data_offset i + data_size i \<le> int (length c)"
  shows "PboExtFile_read \<lparr>ext_fp = Some g, info = i, pos = p\<rparr> n
           = Inr (take (nat n) (drop (nat p) c),
                  \<lparr>ext_fp = Some (g\<lparr>fpos := nat p + nat n\<rparr>), info = i, pos = p + n\<rparr>)"
proof -
  have sk: "fseek g p 0 = Inr (g\<lparr>fpos := nat p\<rparr>)"
    using assms(2) by (simp add: fseek_simps)
  have rs: "min n (data_offset i + data_size i - p) = n"
    using assms by simp
  have rd: "fread (g\<lparr>fpos := nat p\<rparr>) n
              = (take (nat n) (drop (nat p) c), g\<lparr>fpos := nat p + nat n\<rparr>)"
    using fread_exact[of n "g\<lparr>fpos := nat p\<rparr>"] assms by simp
  have tl: "ftell (g\<lparr>fpos := nat p + nat n\<rparr>) = p + n"
    using assms by (simp add: ftell_def)
  have pos: "0 < data_offset i + data_size i - p"
    using assms by simp
  show ?thesis
    using assms(3) pos by (simp add: PboExtFile_read_def sk Let_def rs rd tl)
qed

lemma filehash_while_archived:
  assumes "content g = c" and "0 \<le> data_offset i" and "data_offset i \<le> p"
    and "p \<le> data_offset i + data_size i" and "data_offset i + data_size i \<le> int (length c)"
  shows "filehash_while i (data_offset i + data_size i - p)
           (Archived \<lparr>ext_fp = Some g, info = i, pos = p\<rparr>) h
         = Some (Inr (h @ take (nat (data_offset i + data_size i - p)) (drop (nat p) c)))"
  using assms
proof (induction "nat (data_offset i + data_size i - p)" arbitrary: g p h rule: less_induct)
  case less
  let ?e = "data_offset i + data_size i"
  show ?case
  proof (cases "p = ?e")
    case True
    then show ?thesis
      by (subst filehash_while.simps) simp
  next
    case False
    define n where "n = min CHUNK_SIZE (?e - p)"
    have n: "0 < n" "p + n \<le> ?e"
      using False less.prems by (auto simp: n_def CHUNK_SIZE_def)
    define g' where "g' = g\<lparr>fpos := nat p + nat n\<rparr>"
    have rd: "member_read (Archived \<lparr>ext_fp = Some g, info = i, pos = p\<rparr>) n
                = Inr (take (nat n) (drop (nat p) c),
                       Archived \<lparr>ext_fp = Some g', info = i, pos = p + n\<rparr>)"
      using PboExtFile_read_chunk[of g c p n i] less.prems n
      by (simp add: member_read_def g'_def)
    have tl: "data_size i - member_tell (Archived \<lparr>ext_fp = Some g', info = i, pos = p + n\<rparr>)
                = ?e - (p + n)"
      by (simp add: member_tell_def PboExtFile_tell_def)
    have IH: "filehash_while i (?e - (p + n)) (Archived \<lparr>ext_fp = Some g', info = i, pos = p + n\<rparr>) h'
                = Some (Inr (h' @ take (nat (?e - (p + n))) (drop (nat (p + n)) c)))" for h'
      using less.prems n by (intro less.hyps) (auto simp: g'_def)
    have "filehash_while i (?e - p) (Archived \<lparr>ext_fp = Some g, info = i, pos = p\<rparr>) h
            = filehash_while i (?e - (p + n)) (Archived \<lparr>ext_fp = Some g', info = i, pos = p + n\<rparr>)
                (update h (take (nat n) (drop (nat p) c)))"
      using False less.prems
      by (subst filehash_while.simps) (simp add: n_def[symmetric] rd tl)
    also have "\<dots> = Some (Inr (h @ take (nat n) (drop (nat p) c)
                              @ take (nat (?e - (p + n))) (drop (nat (p + n)) c)))"
      by (simp add: IH update_def)
    also have "take (nat n) (drop (nat p) c) @ take (nat (?e - (p + n))) (drop (nat (p + n)) c)
                 = take (nat (?e - p)) (drop (nat p) c)"
    proof -
      have "nat (?e - p) = nat n + nat (?e - (p + n))"
        using n less.prems by simp
      moreover have "drop (nat (p + n)) c = drop (nat n) (drop (nat p) c)"
        using n less.prems by (simp add: nat_add_distrib add.commute)
      ultimately show ?thesis
        by (simp only: take_add_drop)
    qed
    finally show ?thesis .
  qed
qed

lemma filehash_member_archived:
  assumes "pbo_fp self = Some f" and "in_archive f i" and "0 \<le> data_size i"
  shows "filehash_while i (data_size i) (pbo_open self i) h = Some (Inr (h @ payload f i))"
proof -
  have "filehash_while i (data_offset i + data_size i - data_offset i)
           (Archived \<lparr>ext_fp = Some f, info = i, pos = data_offset i\<rparr>) h
         = Some (Inr (h @ take (nat (data_offset i + data_size i - data_offset i))
                            (drop (nat (data_offset i)) (content f))))"
    using assms by (intro filehash_while_archived) (auto simp: in_archive_def)
  then show ?thesis
    using assms by (simp add: pbo_open_def in_archive_def new_PboExtFile_def payload_def)
qed

lemma filehash_for_archived:
  assumes "pbo_fp self = Some f" and "\<forall>i \<in> set is. in_archive f i"
    and "v = 2 \<or> v = 3"
  shows "filehash_for self v is h nothing
           = Some (Inr (h @ concat (map (payload f) (filter (selected v) is)),
                        nothing \<and> filter (selected v) is = []))"
  using assms(2)
proof (induction "is" arbitrary: h nothing)
  case Nil
  then show ?case by simp
next
  case (Cons i "is")
  obtain c where c: "check_file_hash i v = Inr c"
    using assms(3) by (auto simp: check_file_hash_def)
  show ?case
  proof (cases c)
    case True
    then have "0 \<le> data_size i"
      using c Cons.prems assms(3)
      by (auto simp: check_file_hash_def get_data_size_def in_archive_def split: if_splits)
    then have "filehash_while i (data_size i) (pbo_open self i) h = Some (Inr (h @ payload f i))"
      using assms(1) Cons.prems by (intro filehash_member_archived) auto
    then show ?thesis
      using c True Cons by (simp add: ebind_def selected_def)
  next
    case False
    then show ?thesis
      using c Cons by (simp add: selected_def)
  qed
qed

lemma filehash_archived:
  assumes "pbo_fp self = Some f" and "\<forall>i \<in> set (infolist self). in_archive f i"
    and "v = 2 \<or> v = 3"
  shows "filehash self v
           = Some (Inr (if filter (selected v) (infolist self) = []
                        then (if v = 2 then ''nothing'' else ''gnihton'')
                        else concat (map (payload f) (filter (selected v) (infolist self)))))"
  using assms(3)
  by (auto simp add: filehash_def filehash_for_archived[OF assms] ebind_def sha1_new_def update_def)

lemma selected_archived:
  assumes "fp i = None"
  shows "selected 2 i \<longleftrightarrow> 0 < data_size i \<and> \<not> endswith (lower (filename i)) v2_suffixes"
    and "selected 3 i \<longleftrightarrow> 0 < data_size i \<and> endswith (lower (filename i)) v3_suffixes"
  using assms by (auto simp: selected_def check_file_hash_def get_data_size_def)

lemma filehash_while_nothing_to_read:
  "rlen \<le> 0 \<Longrightarrow> filehash_while i rlen m h = Some (Inr h)"
  by (subst filehash_while.simps) simp

section \<open>The file hash of members added from disk: claim C3\<close>

text \<open>
  C3. For every PboFile and version 2 or 3, the file hash is the SHA-1 of the concatenated
  payloads of exactly the entries, in stored order, whose data size is positive and whose
  lowercased filename passes the version's suffix rule; if no entry qualifies it is the
  SHA-1 of \<^verbatim>\<open>nothing\<close> (version 2) or \<^verbatim>\<open>gnihton\<close> (version 3).

  For members of a backing archive this is lemma \<open>filehash_archived\<close>. A member added by
  \<^verbatim>\<open>PboFile.add\<close> keeps the constructor's \<^verbatim>\<open>data_size = -1\<close>: \<^verbatim>\<open>check_file_hash\<close> asks
  \<^verbatim>\<open>get_data_size()\<close> and selects it, the read loop starts from \<^verbatim>\<open>info.data_size\<close> and
  reads nothing. For the one-byte member \<^verbatim>\<open>a.sqf\<close> holding \<^verbatim>\<open>x\<close> the hash object has
  been fed no byte at all: neither \<^verbatim>\<open>x\<close> nor a sentinel.
\<close>

theorem filehash_added_member:
  "filehash \<lparr>header = ([NUL], 0x56657273, 0, 0, 0, 0), header_extension = [],
             filedict = [(''a.sqf'', new_PboInfo ''a.sqf'' 0 0 0 0 (- 1)
                            (Some \<lparr>content = ''x'', fpos = 0, mtime = 0\<rparr>))],
             pbo_fp = None\<rparr> 3 = Some (Inr [])
   \<and> check_file_hash (new_PboInfo ''a.sqf'' 0 0 0 0 (- 1)
                            (Some \<lparr>content = ''x'', fpos = 0, mtime = 0\<rparr>)) 3 = Inr True"
  by code_simp

section \<open>The three hashes: claim C5\<close>

lemma update_prefix_eq: "update_prefix self h = h @ prefix_bytes self"
  by (simp add: update_prefix_def prefix_bytes_def update_def split: option.splits)

lemma hash_iff:
  "hash self arg v = Some (Inr (h1, h2, h3)) \<longleftrightarrow>
     (\<exists>f' fh. hash1 self arg = Some (Inr (h1, f')) \<and> filehash self v = Some (Inr fh)
        \<and> h2 = digest h1 @ digest (namehash self) @ prefix_bytes self
        \<and> h3 = digest fh @ digest (namehash self) @ prefix_bytes self)"
proof (cases "hash1 self arg")
  case None
  then show ?thesis by (simp add: hash_def ebind_def)
next
  case (Some r)
  show ?thesis
  proof (cases r)
    case (Inl e)
    then show ?thesis using Some by (simp add: hash_def ebind_def)
  next
    case (Inr hf)
    obtain g1 f1 where hf: "hf = (g1, f1)"
      by (cases hf)
    show ?thesis
    proof (cases "filehash self v")
      case None
      then show ?thesis using Some Inr hf by (simp add: hash_def ebind_def Let_def)
    next
      case (Some r2)
      then show ?thesis
        using \<open>hash1 self arg = Some r\<close> Inr hf
        by (cases r2)
           (auto simp add: hash_def ebind_def Let_def update_prefix_eq update_def sha1_new_def)
    qed
  qed
qed

text \<open>
  C5. \<^verbatim>\<open>hash2\<close> is the SHA-1 of the digest of \<^verbatim>\<open>hash1\<close>, the digest of the name hash and
  \<open>X\<close>; \<^verbatim>\<open>hash3\<close> is the SHA-1 of the digest of the file hash, the digest of the name
  hash and \<open>X\<close>; where \<open>X\<close> is \<^verbatim>\<open>header_extension[b'prefix']\<close> followed by one backslash
  when the key \<^verbatim>\<open>prefix\<close> is present, and empty otherwise.

  The first part holds for every \<^verbatim>\<open>PboFile\<close>, every file argument and every version:
  whatever \<^verbatim>\<open>hash\<close> returns are these digests. The second part says that \<^verbatim>\<open>hash\<close> does
  return: for a file to hash of at least 21 bytes, members that all lie inside the backing
  file, and version 2 or 3, the call ends and raises nothing.
\<close>

theorem hash_digests:
  "(\<forall>h1 h2 h3. hash self arg v = Some (Inr (h1, h2, h3)) \<longrightarrow>
      (\<exists>f' fh X. hash1 self arg = Some (Inr (h1, f')) \<and> filehash self v = Some (Inr fh)
         \<and> X = (case map_of (header_extension self) ''prefix'' of None \<Rightarrow> []
                 | Some p \<Rightarrow> p @ [CHR 0x5C])
         \<and> digest h2 = sha1 (digest h1 @ digest (namehash self) @ X)
         \<and> digest h3 = sha1 (digest fh @ digest (namehash self) @ X)))
   \<and> ((case arg of None \<Rightarrow> pbo_fp self | Some g \<Rightarrow> Some g) = Some f
        \<and> 21 \<le> length (content f)
        \<and> pbo_fp self = Some b \<and> (\<forall>i \<in> set (infolist self). in_archive b i)
        \<and> (v = 2 \<or> v = 3) \<longrightarrow>
      (\<exists>h1 h2 h3. hash self arg v = Some (Inr (h1, h2, h3))))"
proof (intro conjI allI impI)
  fix h1 h2 h3
  assume "hash self arg v = Some (Inr (h1, h2, h3))"
  then show "\<exists>f' fh X. hash1 self arg = Some (Inr (h1, f')) \<and> filehash self v = Some (Inr fh)
         \<and> X = (case map_of (header_extension self) ''prefix'' of None \<Rightarrow> []
                 | Some p \<Rightarrow> p @ [CHR 0x5C])
         \<and> digest h2 = sha1 (digest h1 @ digest (namehash self) @ X)
         \<and> digest h3 = sha1 (digest fh @ digest (namehash self) @ X)"
    unfolding hash_iff by (auto simp add: digest_def prefix_bytes_def)
next
  assume a: "(case arg of None \<Rightarrow> pbo_fp self | Some g \<Rightarrow> Some g) = Some f
        \<and> 21 \<le> length (content f)
        \<and> pbo_fp self = Some b \<and> (\<forall>i \<in> set (infolist self). in_archive b i)
        \<and> (v = 2 \<or> v = 3)"
  have "hash1 self arg = hash1 self (Some f)"
    using a by (simp add: hash1_def)
  then have 1: "hash1 self arg
                  = Some (Inr (take (length (content f) - 21) (content f), f))"
    using a by (simp add: hash1_file)
  have b: "pbo_fp self = Some b" and i: "\<forall>i \<in> set (infolist self). in_archive b i"
    and v: "v = 2 \<or> v = 3"
    using a by simp_all
  note 2 = filehash_archived[OF b i v]
  show "\<exists>h1 h2 h3. hash self arg v = Some (Inr (h1, h2, h3))"
    unfolding hash_iff 1 2 by blast
qed
section \<open>The small archive, evaluated\<close>

lemma sha1_example_body:
  "sha1 example_body = [CHR 0x9f, CHR 0x2c, CHR 0xee, CHR 0x7c, CHR 0x90, CHR 0xcb, CHR 0xaa,
     CHR 0xf5, CHR 0x2d, CHR 0x6c, CHR 0x4d, CHR 0xb9, CHR 0xb4, CHR 0xcb, CHR 0x8d, CHR 0x42,
     CHR 0xb0, CHR 0x2b, CHR 0x67, CHR 0xc7]"
  by code_simp

lemma length_example_body: "length example_body = 88"
  by (simp add: example_body_def)

lemma from_file_example: "from_file example_file = Some (Inr example_pbo)"
  unfolding example_pbo_def example_file_def sha1_example_body
  by code_simp

lemma hash1_example:
  "hash1 example_pbo None = Some (Inr (example_body, example_file\<lparr>fpos := 87\<rparr>))"
proof -
  have "hash1 example_pbo None = hash1 example_pbo (Some (example_file\<lparr>fpos := 87\<rparr>))"
    by (simp add: hash1_def example_pbo_def)
  also have "length (sha1 example_body) = 20"
    by (simp add: sha1_example_body)
  ultimately show ?thesis
    by (simp add: hash1_file example_file_def length_example_body)
qed

lemma namehash_example_pbo: "namehash example_pbo = ''data.sqf''"
  by code_simp

lemma filehash_example_pbo: "filehash example_pbo 3 = Some (Inr ''x'')"
  unfolding example_pbo_def example_file_def sha1_example_body
  by code_simp

lemma hash_example:
  "hash example_pbo None 3
     = Some (Inr (example_body,
                  sha1 example_body @ sha1 ''data.sqf'' @ ''myAddon'' @ [CHR 0x5C],
                  sha1 ''x'' @ sha1 ''data.sqf'' @ ''myAddon'' @ [CHR 0x5C]))"
proof -
  have "prefix_bytes example_pbo = ''myAddon'' @ [CHR 0x5C]"
    by (simp add: prefix_bytes_def example_pbo_def)
  then show ?thesis
    unfolding hash_iff
    by (simp add: hash1_example filehash_example_pbo namehash_example_pbo digest_def)
qed

theorem hash_digests_witness:
  "\<exists>h1 h2 h3. hash example_pbo None 3 = Some (Inr (h1, h2, h3))
     \<and> h1 = example_body
     \<and> digest h2 = sha1 (sha1 example_body @ sha1 ''data.sqf'' @ ''myAddon'' @ [CHR 0x5C])
     \<and> digest h3 = sha1 (sha1 ''x'' @ sha1 ''data.sqf'' @ ''myAddon'' @ [CHR 0x5C])"
proof -
  note hd = hash_digests[where self = example_pbo and arg = None and v = 3
      and f = "example_file\<lparr>fpos := 87\<rparr>" and b = "example_file\<lparr>fpos := 87\<rparr>"]
  have fp: "pbo_fp example_pbo = Some (example_file\<lparr>fpos := 87\<rparr>)"
    by (simp add: example_pbo_def)
  have len: "21 \<le> length (content (example_file\<lparr>fpos := 87\<rparr>))"
    by (simp add: example_file_def length_example_body)
  have arch: "\<forall>i \<in> set (infolist example_pbo). in_archive (example_file\<lparr>fpos := 87\<rparr>) i"
    by (simp add: infolist_def example_pbo_def in_archive_def example_file_def
        length_example_body sha1_example_body)
  have pre: "map_of (header_extension example_pbo) ''prefix'' = Some ''myAddon''"
    by (simp add: example_pbo_def)
  from hd fp len arch obtain h1 h2 h3 where
    h: "hash example_pbo None 3 = Some (Inr (h1, h2, h3))"
    by auto
  with hd obtain f' fh X where
    h1: "hash1 example_pbo None = Some (Inr (h1, f'))" and
    fh: "filehash example_pbo 3 = Some (Inr fh)" and
    X: "X = (case map_of (header_extension example_pbo) ''prefix'' of None \<Rightarrow> []
          | Some p \<Rightarrow> p @ [CHR 0x5C])" and
    d2: "digest h2 = sha1 (digest h1 @ digest (namehash example_pbo) @ X)" and
    d3: "digest h3 = sha1 (digest fh @ digest (namehash example_pbo) @ X)"
    by blast
  have X': "X = ''myAddon'' @ [CHR 0x5C]"
    unfolding X pre by simp
  have fh': "fh = ''x''"
    using fh unfolding filehash_example_pbo by simp
  have h1': "h1 = example_body"
    using h1 unfolding hash1_example by simp
  have nh: "digest (namehash example_pbo) = sha1 ''data.sqf''"
    unfolding namehash_example_pbo by (simp add: digest_def)
  have d2': "digest h2 = sha1 (sha1 example_body @ sha1 ''data.sqf'' @ ''myAddon'' @ [CHR 0x5C])"
    using d2 unfolding X' h1' nh by (simp add: digest_def)
  have d3': "digest h3 = sha1 (sha1 ''x'' @ sha1 ''data.sqf'' @ ''myAddon'' @ [CHR 0x5C])"
    using d3 unfolding X' fh' nh by (simp add: digest_def)
  show ?thesis
    using h h1' d2' d3' by blast
qed

section \<open>More on the conversions\<close>

lemma be_int_rev_le_bytes: "0 \<le> v \<Longrightarrow> be_int (rev (le_bytes n v)) = v mod 256 ^ n"
proof (induction n arbitrary: v)
  case 0
  then show ?case by (simp add: be_int_def)
next
  case (Suc n)
  have "0 \<le> v div 256"
    using Suc.prems by simp
  then have IH: "be_int (rev (le_bytes n (v div 256))) = (v div 256) mod 256 ^ n"
    by (rule Suc.IH)
  have "be_int (rev (le_bytes (Suc n) v)) = (v div 256) mod 256 ^ n * 256 + v mod 256"
    by (simp add: be_int_snoc IH)
  also have "\<dots> = v mod 256 ^ Suc n"
    using zmod_zmult2_eq[of "256 ^ n" v 256] by (simp add: mult.commute)
  finally show ?case .
qed

lemma bytes_to_int_le_bytes: "u32 v \<Longrightarrow> bytes_to_int (le_bytes 4 v) little = v"
  by (simp add: bytes_to_int_def be_int_rev_le_bytes u32_def)

lemma length_le_bytes [simp]: "length (le_bytes n v) = n"
  by (induction n arbitrary: v) simp_all

lemma pack_I_u32: "u32 v \<Longrightarrow> pack_I v = Inr (le_bytes 4 v)"
  by (simp add: pack_I_def u32_def)

lemma unpack_IIIII_le_bytes:
  assumes "u32 a" "u32 b" "u32 c" "u32 d" "u32 e"
  shows "unpack_IIIII (le_bytes 4 a @ le_bytes 4 b @ le_bytes 4 c @ le_bytes 4 d @ le_bytes 4 e)
           = Inr (a, b, c, d, e)"
  using assms by (simp add: unpack_IIIII_def bytes_to_int_le_bytes)

lemma pack_Is_u32:
  assumes "u32 a" "u32 b" "u32 c" "u32 d" "u32 e"
  shows "pack_Is [a, b, c, d, e]
           = Inr (le_bytes 4 a @ le_bytes 4 b @ le_bytes 4 c @ le_bytes 4 d @ le_bytes 4 e)"
  using assms by (simp add: pack_I_u32)

subsection \<open>The digest has 20 bytes\<close>

lemma length_sha1_round: "length st = 5 \<Longrightarrow> length (sha1_round t w st) = 5"
  by (cases "(t, w, st)" rule: sha1_round.cases) simp_all

lemma length_sha1_rounds: "length st = 5 \<Longrightarrow> length (sha1_rounds t ws st) = 5"
  by (induction ws arbitrary: t st) (simp_all add: length_sha1_round)

lemma length_sha1_block: "length h = 5 \<Longrightarrow> length (sha1_block h blk) = 5"
  by (simp add: sha1_block_def length_sha1_rounds)

lemma length_sha1_blocks: "length h = 5 \<Longrightarrow> length (sha1_blocks h bs) = 5"
proof (induction h bs rule: sha1_blocks.induct)
  case (1 h bs)
  then show ?case
    by (subst sha1_blocks.simps) (simp add: length_sha1_block)
qed

lemma length_concat_words: "length (concat (map (\<lambda>w. rev (le_bytes 4 w)) ws)) = 4 * length ws"
  by (induction ws) simp_all

lemma length_sha1 [simp]: "length (sha1 m) = 20"
  by (simp add: sha1_def length_concat_words length_sha1_blocks)

subsection \<open>The digest through \<^verbatim>\<open>hexdigest\<close>, \<^verbatim>\<open>long\<close> and \<^verbatim>\<open>int_to_bytes\<close>\<close>

lemma hexdigit_not_x:
  assumes "0 \<le> v" "v < 16"
  shows "hexdigit v \<noteq> CHR ''x''" "hexdigit v \<noteq> CHR ''X''"
proof -
  have "hex_val (CHR ''x'') = None" "hex_val (CHR ''X'') = None"
    by (simp_all add: hex_val_def)
  then show "hexdigit v \<noteq> CHR ''x''" "hexdigit v \<noteq> CHR ''X''"
    using hex_val_hexdigit[OF assms] by auto
qed

lemma long16_hexlify:
  assumes "bs \<noteq> []"
  shows "long16 (hexlify bs) = Inr (be_int bs)"
proof -
  obtain b bs' where bs: "bs = b # bs'"
    using assms by (cases bs) auto
  have lo: "0 \<le> (of_char b :: int) mod 16" "(of_char b :: int) mod 16 < 16"
    by simp_all
  have tk: "take 2 (hexlify bs) = [hexdigit (of_char b div 16), hexdigit (of_char b mod 16)]"
    by (simp add: bs hexlify_def)
  have "take 2 (hexlify bs) \<noteq> ''0x''" "take 2 (hexlify bs) \<noteq> ''0X''"
    unfolding tk using hexdigit_not_x[OF lo] by simp_all
  moreover have "hexlify bs \<noteq> []"
    by (simp add: bs hexlify_def)
  ultimately have "long16 (hexlify bs) = hex_digits (hexlify bs @ []) 0"
    by (simp add: long16_def)
  also have "\<dots> = Inr (be_int bs)"
    unfolding hex_digits_hexlify by (simp add: be_int_def)
  finally show ?thesis .
qed

lemma digest_trailer:
  "long16 (hexdigest h) = Inr (be_int (sha1 h))"
  "int_to_bytes (be_int (sha1 h)) 20 big = Inr (sha1 h)"
proof -
  have ne: "sha1 h \<noteq> []"
  proof
    assume "sha1 h = []"
    then have "length (sha1 h) = 0"
      by (simp only: list.size)
    then show False
      by simp
  qed
  show "long16 (hexdigest h) = Inr (be_int (sha1 h))"
    by (simp add: hexdigest_def long16_hexlify[OF ne])
  show "int_to_bytes (be_int (sha1 h)) 20 big = Inr (sha1 h)"
    using int_to_bytes_be_int[of "sha1 h"] by simp
qed

section \<open>Reading an archive\<close>

lemma advance_simps [simp]:
  "content (advance f n) = content f"
  "mtime (advance f n) = mtime f"
  "fpos (advance f n) = fpos f + n"
  "advance (advance f n) m = advance f (n + m)"
  "advance f 0 = f"
  by (simp_all add: advance_def add.assoc)

lemma remaining_advance:
  assumes "remaining f = a @ b"
  shows "remaining (advance f (length a)) = b"
proof -
  have "remaining (advance f (length a)) = drop (length a) (remaining f)"
    by (simp add: remaining_def add.commute)
  then show ?thesis
    by (simp add: assms)
qed

lemma fread_remaining:
  assumes "remaining f = a @ b"
  shows "fread f (int (length a)) = (a, advance f (length a))"
  using assms by (simp add: fread_def remaining_def advance_def Let_def)

lemma unpack_asciiz_remaining:
  assumes "remaining f = s @ NUL # b" and "NUL \<notin> set s"
  shows "unpack_asciiz f = Some (s, advance f (length s + 1))"
    and "remaining (advance f (length s + 1)) = b"
proof -
  show "unpack_asciiz f = Some (s, advance f (length s + 1))"
    using unpack_asciiz_reads[of f s b] assms by (simp add: remaining_def advance_def add.assoc)
  have "remaining f = (s @ [NUL]) @ b"
    using assms by simp
  from remaining_advance[OF this] show "remaining (advance f (length s + 1)) = b"
    by simp
qed

lemma odict_set_new: "k \<notin> fst ` set d \<Longrightarrow> odict_set d k v = d @ [(k, v)]"
  by (induction d) auto

lemma from_file_header_extension_reads:
  assumes "remaining f = concat (map extension_pair ext) @ NUL # rest"
    and "list_all valid_pair ext" and "distinct (map fst ext)"
    and "fst ` set acc \<inter> fst ` set ext = {}"
  shows "\<exists>s f'. unpack_asciiz f = Some (s, f')
           \<and> from_file_header_extension s acc f'
               = Some (acc @ ext, advance f (length (concat (map extension_pair ext)) + 1))"
  using assms
proof (induction ext arbitrary: f acc)
  case Nil
  then have "remaining f = [] @ NUL # rest"
    by simp
  then have "unpack_asciiz f = Some ([], advance f 1)"
    using unpack_asciiz_remaining(1)[of f "[]" rest] by simp
  moreover have "from_file_header_extension [] acc (advance f 1) = Some (acc, advance f 1)"
    by (subst from_file_header_extension.simps) simp
  ultimately show ?case
    by simp
next
  case (Cons kv ext)
  obtain k v where kv: "kv = (k, v)"
    by (cases kv)
  have valid: "k \<noteq> []" "NUL \<notin> set k" "NUL \<notin> set v"
    using Cons.prems(2) by (simp_all add: kv valid_pair_def)
  let ?tail = "concat (map extension_pair ext) @ NUL # rest"
  have ep: "extension_pair kv = k @ NUL # v @ [NUL]"
    by (simp add: kv extension_pair_def)
  have r0: "remaining f = k @ NUL # (v @ NUL # ?tail)"
    using Cons.prems(1) by (simp add: ep)
  define f1 where "f1 = advance f (length k + 1)"
  have u1: "unpack_asciiz f = Some (k, f1)" and r1: "remaining f1 = v @ NUL # ?tail"
    using unpack_asciiz_remaining[OF r0 valid(2)] by (simp_all add: f1_def)
  define f2 where "f2 = advance f1 (length v + 1)"
  have u2: "unpack_asciiz f1 = Some (v, f2)" and r2: "remaining f2 = ?tail"
    using unpack_asciiz_remaining[OF r1 valid(3)] by (simp_all add: f2_def)
  have fresh: "k \<notin> fst ` set acc"
    using Cons.prems(4) by (auto simp: kv)
  have disj: "fst ` set (acc @ [(k, v)]) \<inter> fst ` set ext = {}"
    using Cons.prems(3,4) by (auto simp: kv)
  from Cons.IH[OF r2 _ _ disj] Cons.prems(2,3)
  obtain s' f3 where u3: "unpack_asciiz f2 = Some (s', f3)"
    and l3: "from_file_header_extension s' (acc @ [(k, v)]) f3
               = Some ((acc @ [(k, v)]) @ ext,
                       advance f2 (length (concat (map extension_pair ext)) + 1))"
    by auto
  have "from_file_header_extension k acc f1
          = from_file_header_extension s' (odict_set acc k v) f3"
    using valid(1) by (subst from_file_header_extension.simps) (simp add: u2 u3)
  also have "\<dots> = Some ((acc @ [(k, v)]) @ ext,
                       advance f2 (length (concat (map extension_pair ext)) + 1))"
    by (simp only: odict_set_new[OF fresh] l3)
  also have "advance f2 (length (concat (map extension_pair ext)) + 1)
               = advance f (length (concat (map extension_pair (kv # ext))) + 1)"
    by (simp add: f2_def f1_def ep)
  finally show ?case
    using u1 by (simp add: kv)
qed

lemma length_index_fields:
  "length (le_bytes 4 a @ le_bytes 4 b @ le_bytes 4 c @ le_bytes 4 d @ le_bytes 4 e) = 20"
  by simp

lemma from_file_filedict_reads:
  assumes "remaining f = concat (map index_record ms) @ NUL # rest"
    and "list_all valid_member ms" and "distinct (map m_name ms)"
    and "fst ` set acc \<inter> m_name ` set ms = {}"
  shows "\<exists>s f'. unpack_asciiz f = Some (s, f')
           \<and> from_file_filedict s acc f'
               = Some (Inr (acc @ map info_of ms,
                            advance f (length (concat (map index_record ms)) + 1)))"
  using assms
proof (induction ms arbitrary: f acc)
  case Nil
  then have "remaining f = [] @ NUL # rest"
    by simp
  then have "unpack_asciiz f = Some ([], advance f 1)"
    using unpack_asciiz_remaining(1)[of f "[]" rest] by simp
  moreover have "from_file_filedict [] acc (advance f 1) = Some (Inr (acc, advance f 1))"
    by (subst from_file_filedict.simps) simp
  ultimately show ?case
    by simp
next
  case (Cons m ms)
  have valid: "m_name m \<noteq> []" "NUL \<notin> set (m_name m)" "u32 (m_packing_method m)"
    "u32 (m_original_size m)" "u32 (m_reserved m)" "u32 (m_timestamp m)"
    "u32 (int (length (m_data m)))"
    using Cons.prems(2) by (simp_all add: valid_member_def)
  let ?fields = "le_bytes 4 (m_packing_method m) @ le_bytes 4 (m_original_size m)
       @ le_bytes 4 (m_reserved m) @ le_bytes 4 (m_timestamp m)
       @ le_bytes 4 (int (length (m_data m)))"
  let ?tail = "concat (map index_record ms) @ NUL # rest"
  have ir: "index_record m = m_name m @ NUL # ?fields"
    by (simp add: index_record_def)
  have r0: "remaining f = m_name m @ NUL # (?fields @ ?tail)"
    using Cons.prems(1) by (simp add: ir)
  define f1 where "f1 = advance f (length (m_name m) + 1)"
  have u1: "unpack_asciiz f = Some (m_name m, f1)" and r1: "remaining f1 = ?fields @ ?tail"
    using unpack_asciiz_remaining[OF r0 valid(2)] by (simp_all add: f1_def)
  define f2 where "f2 = advance f1 20"
  have rd: "fread f1 20 = (?fields, f2)"
    using fread_remaining[OF r1] by (simp add: f2_def)
  have r2: "remaining f2 = ?tail"
    using remaining_advance[OF r1] by (simp add: f2_def)
  have un: "unpack_IIIII ?fields = Inr (m_packing_method m, m_original_size m, m_reserved m,
              m_timestamp m, int (length (m_data m)))"
    using valid by (intro unpack_IIIII_le_bytes)
  let ?i = "new_PboInfo (m_name m) (m_packing_method m) (m_original_size m) (m_reserved m)
              (m_timestamp m) (int (length (m_data m))) None"
  have fresh: "m_name m \<notin> fst ` set acc"
    using Cons.prems(4) by auto
  have disj: "fst ` set (acc @ [(m_name m, ?i)]) \<inter> m_name ` set ms = {}"
    using Cons.prems(3,4) by auto
  from Cons.IH[OF r2 _ _ disj] Cons.prems(2,3)
  obtain s' f3 where u3: "unpack_asciiz f2 = Some (s', f3)"
    and l3: "from_file_filedict s' (acc @ [(m_name m, ?i)]) f3
               = Some (Inr ((acc @ [(m_name m, ?i)]) @ map info_of ms,
                            advance f2 (length (concat (map index_record ms)) + 1)))"
    by auto
  have "from_file_filedict (m_name m) acc f1
          = from_file_filedict s' (odict_set acc (m_name m) ?i) f3"
    using valid(1) by (subst from_file_filedict.simps) (simp add: rd un u3)
  also have "\<dots> = Some (Inr ((acc @ [(m_name m, ?i)]) @ map info_of ms,
                            advance f2 (length (concat (map index_record ms)) + 1)))"
    by (simp only: odict_set_new[OF fresh] l3)
  also have "advance f2 (length (concat (map index_record ms)) + 1)
               = advance f (length (concat (map index_record (m # ms))) + 1)"
    by (simp add: f2_def f1_def ir)
  finally show ?case
    using u1 by (simp add: info_of_def)
qed

lemma from_file_layout:
  assumes "valid_pbo (h1, h2, h3, h4, h5) ext ms"
  shows "from_file \<lparr>content = pbo_bytes (h1, h2, h3, h4, h5) ext ms, fpos = 0, mtime = t\<rparr>
           = Some (Inr \<lparr>header = ([], h1, h2, h3, h4, h5), header_extension = ext,
                       filedict = assign_offsets
                                    (int (length (pbo_head (h1, h2, h3, h4, h5) ext ms)))
                                    (map info_of ms),
                       pbo_fp = Some \<lparr>content = pbo_bytes (h1, h2, h3, h4, h5) ext ms,
                                      fpos = length (pbo_head (h1, h2, h3, h4, h5) ext ms),
                                      mtime = t\<rparr>\<rparr>)"
proof -
  define lead where "lead = (h1, h2, h3, h4, h5)"
  note lead = lead_def
  have v: "u32 h1" "u32 h2" "u32 h3" "u32 h4" "u32 h5" "list_all valid_pair ext"
    "distinct (map fst ext)" "list_all valid_member ms" "sorted_wrt (<) (map m_name ms)"
    using assms by (simp_all add: valid_pbo_def)
  have dist: "distinct (map m_name ms)"
    using v(9) strict_sorted_iff by blast
  define H where "H = le_bytes 4 h1 @ le_bytes 4 h2 @ le_bytes 4 h3 @ le_bytes 4 h4 @ le_bytes 4 h5"
  define EXT where "EXT = concat (map extension_pair ext)"
  define IDX where "IDX = concat (map index_record ms)"
  define T where "T = concat (map m_data ms) @ [NUL] @ sha1 (pbo_body lead ext ms)"
  define f0 where "f0 = \<lparr>content = pbo_bytes lead ext ms, fpos = 0, mtime = t\<rparr>"
  have lenH: "length H = 20"
    by (simp add: H_def)
  have head: "pbo_head lead ext ms = NUL # H @ EXT @ NUL # IDX @ replicate 21 NUL"
    by (simp add: pbo_head_def lead H_def EXT_def IDX_def)
  have "(21::nat) = Suc 20"
    by simp
  then have rep: "replicate 21 NUL = NUL # replicate 20 NUL"
    by (simp only: replicate_Suc)
  have r0: "remaining f0 = [] @ NUL # (H @ (EXT @ NUL # (IDX @ NUL # (replicate 20 NUL @ T))))"
    by (simp add: f0_def remaining_def pbo_bytes_def pbo_body_def head T_def rep)
  have u0: "unpack_asciiz f0 = Some ([], advance f0 1)"
    and r1: "remaining (advance f0 1) = H @ (EXT @ NUL # (IDX @ NUL # (replicate 20 NUL @ T)))"
    using unpack_asciiz_remaining[OF r0] by simp_all
  have rd1: "fread (advance f0 1) 20 = (H, advance f0 21)"
    using fread_remaining[OF r1] by (simp add: lenH)
  have r2: "remaining (advance f0 21) = EXT @ NUL # (IDX @ NUL # (replicate 20 NUL @ T))"
    using remaining_advance[OF r1] by (simp add: lenH)
  have un: "unpack_IIIII H = Inr (h1, h2, h3, h4, h5)"
    unfolding H_def using v(1-5) by (rule unpack_IIIII_le_bytes)
  from from_file_header_extension_reads[OF r2[unfolded EXT_def] v(6,7), of "[]"]
  obtain s f3 where u3: "unpack_asciiz (advance f0 21) = Some (s, f3)"
    and l3: "from_file_header_extension s [] f3 = Some (ext, advance f0 (21 + (length EXT + 1)))"
    by (auto simp: EXT_def)
  have "remaining (advance f0 21) = (EXT @ [NUL]) @ (IDX @ NUL # (replicate 20 NUL @ T))"
    using r2 by simp
  from remaining_advance[OF this]
  have r4: "remaining (advance f0 (21 + (length EXT + 1))) = IDX @ NUL # (replicate 20 NUL @ T)"
    by simp
  from from_file_filedict_reads[OF r4[unfolded IDX_def] v(8) dist, of "[]"]
  obtain s' f5 where u5: "unpack_asciiz (advance f0 (21 + (length EXT + 1))) = Some (s', f5)"
    and l5: "from_file_filedict s' [] f5
               = Some (Inr (map info_of ms,
                            advance f0 (21 + (length EXT + 1) + (length IDX + 1))))"
    by (auto simp: IDX_def)
  have "remaining (advance f0 (21 + (length EXT + 1))) = (IDX @ [NUL]) @ (replicate 20 NUL @ T)"
    using r4 by simp
  from remaining_advance[OF this]
  have r6: "remaining (advance f0 (21 + (length EXT + 1) + (length IDX + 1))) = replicate 20 NUL @ T"
    by simp
  have rd6: "fread (advance f0 (21 + (length EXT + 1) + (length IDX + 1))) 20
               = (replicate 20 NUL, advance f0 (21 + (length EXT + 1) + (length IDX + 1) + 20))"
    using fread_remaining[OF r6] by simp
  have len: "21 + (length EXT + 1) + (length IDX + 1) + 20 = length (pbo_head lead ext ms)"
    by (simp add: head lenH)
  have tell: "ftell (advance f0 (length (pbo_head lead ext ms)))
                = int (length (pbo_head lead ext ms))"
    by (simp add: ftell_def f0_def)
  have tell': "ftell \<lparr>content = pbo_bytes lead ext ms, fpos = length (pbo_head lead ext ms),
                        mtime = t\<rparr> = int (length (pbo_head lead ext ms))"
    by (simp add: ftell_def)
  have fin: "advance f0 (length (pbo_head lead ext ms))
               = \<lparr>content = pbo_bytes lead ext ms, fpos = length (pbo_head lead ext ms), mtime = t\<rparr>"
    by (simp add: advance_def f0_def)
  have "from_file f0
          = Some (Inr \<lparr>header = ([], h1, h2, h3, h4, h5), header_extension = ext,
                filedict = assign_offsets (int (length (pbo_head lead ext ms))) (map info_of ms),
                pbo_fp = Some \<lparr>content = pbo_bytes lead ext ms,
                               fpos = length (pbo_head lead ext ms), mtime = t\<rparr>\<rparr>)"
    by (simp only: from_file_def u0 rd1 un u3 l3 u5 l5 ebind_def rd6 len tell tell' fin
        Option.bind.simps prod.case sum.case)
  then show ?thesis
    unfolding f0_def lead .
qed

section \<open>Writing an archive\<close>

lemma export_header_extension_eq:
  "export_header_extension ext = concat (map extension_pair ext)"
  by (induction ext rule: export_header_extension.induct) (simp_all add: extension_pair_def)

lemma map_fst_assign_offsets [simp]: "map fst (assign_offsets off d) = map fst d"
  by (induction off d rule: assign_offsets.induct) simp_all

lemma fst_info_of [simp]: "fst (info_of m) = m_name m" "fst \<circ> info_of = m_name"
  by (simp_all add: info_of_def fun_eq_iff)

lemma sort_key_fst_sorted:
  assumes "sorted_wrt (<) (map m_name ms)"
  shows "sort_key fst (assign_offsets off (map info_of ms)) = assign_offsets off (map info_of ms)"
proof -
  have "sorted (map m_name ms)"
    using assms strict_sorted_iff by blast
  then show ?thesis
    by (intro sort_key_id_if_sorted) simp
qed

lemma export_index_layout:
  assumes "list_all valid_member ms"
  shows "export_index (assign_offsets off (map info_of ms)) = Inr (concat (map index_record ms))"
  using assms
proof (induction ms arbitrary: off)
  case Nil
  then show ?case by simp
next
  case (Cons m ms)
  have valid: "u32 (m_packing_method m)" "u32 (m_original_size m)" "u32 (m_reserved m)"
    "u32 (m_timestamp m)" "u32 (int (length (m_data m)))"
    using Cons.prems by (simp_all add: valid_member_def)
  have IH: "export_index (assign_offsets (off + int (length (m_data m))) (map info_of ms))
              = Inr (concat (map index_record ms))"
    using Cons by simp
  have ir: "index_record m = m_name m @ [NUL] @ le_bytes 4 (m_packing_method m)
       @ le_bytes 4 (m_original_size m) @ le_bytes 4 (m_reserved m) @ le_bytes 4 (m_timestamp m)
       @ le_bytes 4 (int (length (m_data m)))"
    by (simp add: index_record_def)
  have im: "info_of m = (m_name m, new_PboInfo (m_name m) (m_packing_method m)
       (m_original_size m) (m_reserved m) (m_timestamp m) (int (length (m_data m))) None)"
    by (simp add: info_of_def)
  show ?case
    using valid
    by (simp add: im ir IH new_PboInfo_def get_timestamp_def get_data_size_def pack_I_u32)
qed

subsection \<open>Streaming a member\<close>

lemma PboExtFile_read_archived:
  assumes "content g = c" and "0 \<le> p" and "0 \<le> n" and "p \<le> data_offset i + data_size i"
    and "data_offset i + data_size i \<le> int (length c)"
  shows "PboExtFile_read \<lparr>ext_fp = Some g, info = i, pos = p\<rparr> n
           = Inr (take (nat (min n (data_offset i + data_size i - p))) (drop (nat p) c),
                  \<lparr>ext_fp = Some (g\<lparr>fpos := nat p + nat (min n (data_offset i + data_size i - p))\<rparr>),
                   info = i, pos = p + min n (data_offset i + data_size i - p)\<rparr>)"
proof (cases "0 < min n (data_offset i + data_size i - p)")
  case True
  define m where "m = min n (data_offset i + data_size i - p)"
  have m: "0 < m" "p + m \<le> data_offset i + data_size i"
    using True by (auto simp: m_def)
  have sk: "fseek g p 0 = Inr (g\<lparr>fpos := nat p\<rparr>)"
    using assms(2) by (simp add: fseek_simps)
  have rd: "fread (g\<lparr>fpos := nat p\<rparr>) m
              = (take (nat m) (drop (nat p) c), g\<lparr>fpos := nat p + nat m\<rparr>)"
    using fread_exact[of m "g\<lparr>fpos := nat p\<rparr>"] assms m by simp
  have tl: "ftell (g\<lparr>fpos := nat p + nat m\<rparr>) = p + m"
    using assms m by (simp add: ftell_def)
  have rs: "(if n > - 1 then min n (data_offset i + data_size i - p)
             else data_offset i + data_size i - p) = m"
    using assms(3) by (simp add: m_def)
  have "PboExtFile_read \<lparr>ext_fp = Some g, info = i, pos = p\<rparr> n
          = (case (if m > 0 then fread (g\<lparr>fpos := nat p\<rparr>) m else ([], g\<lparr>fpos := nat p\<rparr>)) of
               (data, f2) \<Rightarrow> Inr (data, \<lparr>ext_fp = Some g, info = i, pos = p\<rparr>
                                         \<lparr>ext_fp := Some f2, pos := ftell f2\<rparr>))"
    by (simp only: PboExtFile_read_def PboExtFile.simps option.case sk sum.case Let_def rs)
  also have "\<dots> = Inr (take (nat m) (drop (nat p) c),
                  \<lparr>ext_fp = Some (g\<lparr>fpos := nat p + nat m\<rparr>), info = i, pos = p + m\<rparr>)"
    using m(1) by (simp add: rd tl)
  finally show ?thesis
    by (simp only: m_def)
next
  case False
  then have z: "min n (data_offset i + data_size i - p) = 0"
    using assms by auto
  have sk: "fseek g p 0 = Inr (g\<lparr>fpos := nat p\<rparr>)"
    using assms(2) by (simp add: fseek_simps)
  have tl: "ftell (g\<lparr>fpos := nat p\<rparr>) = p"
    using assms by (simp add: ftell_def)
  have rs: "(if n > - 1 then min n (data_offset i + data_size i - p)
             else data_offset i + data_size i - p) = 0"
    using assms(3) z by simp
  have "PboExtFile_read \<lparr>ext_fp = Some g, info = i, pos = p\<rparr> n
          = (case (if (0::int) > 0 then fread (g\<lparr>fpos := nat p\<rparr>) 0 else ([], g\<lparr>fpos := nat p\<rparr>)) of
               (data, f2) \<Rightarrow> Inr (data, \<lparr>ext_fp = Some g, info = i, pos = p\<rparr>
                                         \<lparr>ext_fp := Some f2, pos := ftell f2\<rparr>))"
    by (simp only: PboExtFile_read_def PboExtFile.simps option.case sk sum.case Let_def rs)
  also have "\<dots> = Inr ([], \<lparr>ext_fp = Some (g\<lparr>fpos := nat p\<rparr>), info = i, pos = p\<rparr>)"
    by (simp add: tl)
  finally show ?thesis
    by (simp add: z)
qed

lemma export_while_archived:
  assumes "content g = c" and "0 \<le> data_offset i" and "data_offset i \<le> p"
    and "p \<le> data_offset i + data_size i" and "data_offset i + data_size i \<le> int (length c)"
  shows "(case member_read (Archived \<lparr>ext_fp = Some g, info = i, pos = p\<rparr>) CHUNK_SIZE of
            Inl e \<Rightarrow> Some (Inl e)
          | Inr (data, f) \<Rightarrow> export_while data f h out)
         = Some (Inr (h @ take (nat (data_offset i + data_size i - p)) (drop (nat p) c),
                      out @ take (nat (data_offset i + data_size i - p)) (drop (nat p) c)))"
  using assms
proof (induction "nat (data_offset i + data_size i - p)" arbitrary: g p h out rule: less_induct)
  case less
  let ?e = "data_offset i + data_size i"
  define m where "m = min CHUNK_SIZE (?e - p)"
  define d where "d = take (nat m) (drop (nat p) c)"
  define g' where "g' = g\<lparr>fpos := nat p + nat m\<rparr>"
  have p0: "0 \<le> p"
    using less.prems by simp
  have rd: "member_read (Archived \<lparr>ext_fp = Some g, info = i, pos = p\<rparr>) CHUNK_SIZE
              = Inr (d, Archived \<lparr>ext_fp = Some g', info = i, pos = p + m\<rparr>)"
    using PboExtFile_read_archived[of g c p CHUNK_SIZE i] less.prems p0
    by (simp add: member_read_def m_def d_def g'_def CHUNK_SIZE_def)
  show ?case
  proof (cases "p = ?e")
    case True
    then have "m = 0"
      by (simp add: m_def CHUNK_SIZE_def)
    then have "d = []"
      by (simp add: d_def)
    have "(case member_read (Archived \<lparr>ext_fp = Some g, info = i, pos = p\<rparr>) CHUNK_SIZE of
            Inl e \<Rightarrow> Some (Inl e)
          | Inr (data, f) \<Rightarrow> export_while data f h out)
          = export_while d (Archived \<lparr>ext_fp = Some g', info = i, pos = p + m\<rparr>) h out"
      by (simp only: rd sum.case prod.case)
    also have "\<dots> = Some (Inr (h, out))"
      unfolding \<open>d = []\<close> by (subst export_while.simps) simp
    finally show ?thesis
      using True by simp
  next
    case False
    have m: "0 < m" "p + m \<le> ?e"
      using False less.prems by (auto simp: m_def CHUNK_SIZE_def)
    have "nat p + nat m \<le> length c"
      using m less.prems p0 by linarith
    then have len: "length d = nat m"
      by (simp add: d_def)
    then have ne: "0 < length d"
      using m by simp
    have IH: "(case member_read (Archived \<lparr>ext_fp = Some g', info = i, pos = p + m\<rparr>) CHUNK_SIZE of
                 Inl e \<Rightarrow> Some (Inl e)
               | Inr (data, f) \<Rightarrow> export_while data f h' out')
              = Some (Inr (h' @ take (nat (?e - (p + m))) (drop (nat (p + m)) c),
                           out' @ take (nat (?e - (p + m))) (drop (nat (p + m)) c)))" for h' out'
      using less.prems m by (intro less.hyps) (auto simp: g'_def)
    have join: "d @ take (nat (?e - (p + m))) (drop (nat (p + m)) c)
                  = take (nat (?e - p)) (drop (nat p) c)"
    proof -
      have "nat (?e - p) = nat m + nat (?e - (p + m))"
        using m less.prems by simp
      moreover have "drop (nat (p + m)) c = drop (nat m) (drop (nat p) c)"
        using m p0 by (simp add: nat_add_distrib add.commute)
      ultimately show ?thesis
        by (simp only: d_def take_add_drop)
    qed
    have "(case member_read (Archived \<lparr>ext_fp = Some g, info = i, pos = p\<rparr>) CHUNK_SIZE of
            Inl e \<Rightarrow> Some (Inl e)
          | Inr (data, f) \<Rightarrow> export_while data f h out)
          = export_while d (Archived \<lparr>ext_fp = Some g', info = i, pos = p + m\<rparr>) h out"
      by (simp add: rd)
    also have "\<dots> = (case member_read (Archived \<lparr>ext_fp = Some g', info = i, pos = p + m\<rparr>) CHUNK_SIZE of
                 Inl e \<Rightarrow> Some (Inl e)
               | Inr (data, f) \<Rightarrow> export_while data f (update h d) (out @ d))"
      using ne by (subst export_while.simps) simp
    also have "\<dots> = Some (Inr ((h @ d) @ take (nat (?e - (p + m))) (drop (nat (p + m)) c),
                           (out @ d) @ take (nat (?e - (p + m))) (drop (nat (p + m)) c)))"
      by (simp only: IH update_def)
    finally show ?thesis
      by (simp add: join)
  qed
qed

lemma export_members_layout:
  assumes "pbo_fp self = Some g" and "content g = pre @ concat (map m_data ms) @ post"
  shows "export_members self (assign_offsets (int (length pre)) (map info_of ms)) h out
           = Some (Inr (h @ concat (map m_data ms), out @ concat (map m_data ms)))"
  using assms(2)
proof (induction ms arbitrary: pre h out)
  case Nil
  then show ?case by simp
next
  case (Cons m ms)
  define i where "i = (snd (info_of m))\<lparr>data_offset := int (length pre)\<rparr>"
  have i: "fp i = None" "data_offset i = int (length pre)" "data_size i = int (length (m_data m))"
    by (simp_all add: i_def info_of_def new_PboInfo_def)
  have op: "pbo_open self i = Archived \<lparr>ext_fp = Some g, info = i, pos = int (length pre)\<rparr>"
    by (simp add: pbo_open_def i new_PboExtFile_def assms(1))
  have data: "take (nat (data_offset i + data_size i - int (length pre)))
                (drop (nat (int (length pre))) (content g)) = m_data m"
    by (simp add: i Cons.prems)
  have "(case member_read (Archived \<lparr>ext_fp = Some g, info = i, pos = int (length pre)\<rparr>) CHUNK_SIZE of
            Inl e \<Rightarrow> Some (Inl e)
          | Inr (data, f) \<Rightarrow> export_while data f h out)
         = Some (Inr (h @ take (nat (data_offset i + data_size i - int (length pre)))
                            (drop (nat (int (length pre))) (content g)),
                      out @ take (nat (data_offset i + data_size i - int (length pre)))
                            (drop (nat (int (length pre))) (content g))))"
    by (rule export_while_archived) (simp_all add: i Cons.prems)
  then have one: "(case member_read (pbo_open self i) CHUNK_SIZE of
            Inl e \<Rightarrow> Some (Inl e)
          | Inr (data, f) \<Rightarrow> export_while data f h out)
         = Some (Inr (h @ m_data m, out @ m_data m))"
    by (simp only: op data)
  have "content g = (pre @ m_data m) @ concat (map m_data ms) @ post"
    using Cons.prems by simp
  from Cons.IH[OF this]
  have IH: "export_members self (assign_offsets (int (length pre) + int (length (m_data m)))
              (map info_of ms)) h' out'
            = Some (Inr (h' @ concat (map m_data ms), out' @ concat (map m_data ms)))" for h' out'
    by simp
  have step: "assign_offsets (int (length pre)) (map info_of (m # ms))
                = (m_name m, i) # assign_offsets (int (length pre) + int (length (m_data m)))
                                     (map info_of ms)"
    by (simp add: i_def info_of_def new_PboInfo_def)
  obtain r where r: "member_read (pbo_open self i) CHUNK_SIZE = r"
    by simp
  show ?case
  proof (cases r)
    case (Inl e)
    then show ?thesis
      using one r by simp
  next
    case (Inr df)
    obtain d f where df: "df = (d, f)"
      by (cases df)
    have "export_while d f h out = Some (Inr (h @ m_data m, out @ m_data m))"
      using one r Inr df by simp
    then show ?thesis
      unfolding step by (simp add: r Inr df ebind_def IH)
  qed
qed

lemma export_layout:
  assumes "valid_pbo (h1, h2, h3, h4, h5) ext ms"
  shows "export \<lparr>header = ([], h1, h2, h3, h4, h5), header_extension = ext,
                 filedict = assign_offsets
                              (int (length (pbo_head (h1, h2, h3, h4, h5) ext ms)))
                              (map info_of ms),
                 pbo_fp = Some \<lparr>content = pbo_bytes (h1, h2, h3, h4, h5) ext ms,
                                fpos = length (pbo_head (h1, h2, h3, h4, h5) ext ms),
                                mtime = t\<rparr>\<rparr>
           = Some (Inr (pbo_bytes (h1, h2, h3, h4, h5) ext ms))"
proof -
  define lead where "lead = (h1, h2, h3, h4, h5)"
  define hdr where "hdr = pbo_head lead ext ms"
  define body where "body = pbo_body lead ext ms"
  define g where "g = \<lparr>content = pbo_bytes lead ext ms, fpos = length hdr, mtime = t\<rparr>"
  define fd where "fd = assign_offsets (int (length hdr)) (map info_of ms)"
  define self where "self = \<lparr>header = ([], h1, h2, h3, h4, h5), header_extension = ext,
                               filedict = fd, pbo_fp = Some g\<rparr>"
  have v: "u32 h1" "u32 h2" "u32 h3" "u32 h4" "u32 h5"
    "list_all valid_member ms" "sorted_wrt (<) (map m_name ms)"
    using assms by (simp_all add: valid_pbo_def)
  have pk: "pack_Is [h1, h2, h3, h4, h5]
              = Inr (le_bytes 4 h1 @ le_bytes 4 h2 @ le_bytes 4 h3 @ le_bytes 4 h4 @ le_bytes 4 h5)"
    using v(1-5) by (rule pack_Is_u32)
  have srt: "sort_key fst fd = fd"
    unfolding fd_def using v(7) by (rule sort_key_fst_sorted)
  have idx: "export_index fd = Inr (concat (map index_record ms))"
    unfolding fd_def using v(6) by (rule export_index_layout)
  have hd: "pack_s [] @ (le_bytes 4 h1 @ le_bytes 4 h2 @ le_bytes 4 h3 @ le_bytes 4 h4 @ le_bytes 4 h5)
              @ export_header_extension ext @ pack_s [NUL] @ concat (map index_record ms)
              @ replicate 21 NUL = hdr"
    by (simp add: hdr_def lead_def pbo_head_def pack_s_def export_header_extension_eq)
  have cg: "content g = hdr @ concat (map m_data ms) @ ([NUL] @ sha1 body)"
    by (simp add: g_def pbo_bytes_def pbo_body_def hdr_def body_def)
  have mem: "export_members self fd (update sha1_new hdr) hdr
               = Some (Inr (body, body))"
    unfolding fd_def
    using export_members_layout[of self g hdr ms "[NUL] @ sha1 body" "update sha1_new hdr" hdr] cg
    by (simp add: self_def update_def sha1_new_def body_def pbo_body_def hdr_def)
  have "export self = Some (Inr (body @ pack_s [NUL] @ sha1 body))"
    by (simp only: export_def self_def PboFile.select_convs prod.case pk sum.case srt idx
        Let_def hd mem[unfolded self_def] ebind_def Option.bind.simps digest_trailer)
  then show ?thesis
    by (simp add: self_def fd_def g_def hdr_def body_def lead_def pbo_bytes_def pack_s_def)
qed

section \<open>Reading and writing back: claim C2\<close>

text \<open>
  C2. For every valid PBO file whose index is stored in lexicographic filename order,
  reading it with \<^verbatim>\<open>PboFile.from_file\<close> and writing the result with \<^verbatim>\<open>PboFile.export\<close>
  reproduces the file byte for byte: the leading record, the header-extension pairs in
  order, the index, the 21 NUL bytes, the payloads, and the trailing NUL and SHA-1.
\<close>

theorem read_write_roundtrip:
  assumes "valid_pbo lead ext ms"
  shows "\<exists>p. from_file \<lparr>content = pbo_bytes lead ext ms, fpos = 0, mtime = t\<rparr> = Some (Inr p)
           \<and> header_extension p = ext \<and> map fst (filedict p) = map m_name ms
           \<and> export p = Some (Inr (pbo_bytes lead ext ms))"
proof -
  obtain h1 h2 h3 h4 h5 where lead: "lead = (h1, h2, h3, h4, h5)"
    by (cases lead)
  show ?thesis
    using assms unfolding lead
    by (simp add: from_file_layout export_layout)
qed

lemma valid_two_members: "valid_pbo example_lead example_ext two_members"
  by code_simp

theorem read_write_roundtrip_witness:
  "valid_pbo example_lead example_ext two_members
   \<and> (\<exists>p. from_file \<lparr>content = pbo_bytes example_lead example_ext two_members,
                       fpos = 0, mtime = 0\<rparr> = Some (Inr p)
           \<and> header_extension p = example_ext \<and> map fst (filedict p) = map m_name two_members
           \<and> export p = Some (Inr (pbo_bytes example_lead example_ext two_members)))"
  using read_write_roundtrip[OF valid_two_members, of 0] valid_two_members by blast

lemma example_body_layout: "example_body = pbo_body example_lead example_ext example_members"
  by code_simp

section \<open>Primes and Fermat's little theorem\<close>







section \<open>RSA\<close>





section \<open>Signing and verifying: claim C1\<close>



section \<open>Proth's criterion, to certify the primes of an example key\<close>







section \<open>The example key\<close>










end
